theory Spec2Isabelle
  imports Main "HOL-Library.Sublist"
begin

section \<open>The file system seen by sync.py\<close>

text \<open>
  \<^verbatim>\<open>sync(src, dest)\<close> works on one file system, through \<^verbatim>\<open>os.walk\<close>,
  \<^verbatim>\<open>os.path.exists\<close>, \<^verbatim>\<open>os.path.getmtime\<close>, \<^verbatim>\<open>os.makedirs\<close>,
  \<^verbatim>\<open>shutil.copy2\<close>, \<^verbatim>\<open>os.remove\<close> and \<^verbatim>\<open>shutil.rmtree\<close>. The source and the
  destination are two paths of that one file system, so that a root lying inside the
  other one is an input like any other.

  A path is the list of its segments from the file system's root, which always is a
  directory. An entry is a regular file, with its modification time and its bytes, or a
  directory. The file system is an association list from paths to entries; the first
  entry of a path is the one that counts. Symbolic links, permissions and the
  modification times of directories are not part of the model.
\<close>

type_synonym path = "string list"

datatype node = File int string | Dir

type_synonym filesystem = "(path \<times> node) list"

datatype error =
    FileNotFoundError
  | NotADirectoryError
  | FileExistsError
  | IsADirectoryError
  | SameFileError
  | DirMtimeNotModelled

definition lookup :: "filesystem \<Rightarrow> path \<Rightarrow> node option" where
  "lookup fs p = (if p = [] then Some Dir else map_of fs p)"

text \<open>Every entry but the root lies in a directory.\<close>

definition wf_fs :: "filesystem \<Rightarrow> bool" where
  "wf_fs fs = list_all (\<lambda>e. fst e \<noteq> [] \<and> lookup fs (butlast (fst e)) = Some Dir) fs"

text \<open>\<^verbatim>\<open>os.path.exists(p)\<close>\<close>

definition path_exists :: "filesystem \<Rightarrow> path \<Rightarrow> bool" where
  "path_exists fs p = (lookup fs p \<noteq> None)"

text \<open>
  \<^verbatim>\<open>os.path.getmtime(p)\<close>. The modification time of a directory changes with the clock
  whenever an entry is added to it or removed from it; the model has no clock and stops
  there with an error of its own.
\<close>

definition getmtime :: "filesystem \<Rightarrow> path \<Rightarrow> error + int" where
  "getmtime fs p =
     (case lookup fs p of
        None \<Rightarrow> Inl FileNotFoundError
      | Some (File t c) \<Rightarrow> Inr t
      | Some Dir \<Rightarrow> Inl DirMtimeNotModelled)"

definition unlink :: "filesystem \<Rightarrow> path \<Rightarrow> filesystem" where
  "unlink fs p = filter (\<lambda>e. fst e \<noteq> p) fs"

definition put :: "filesystem \<Rightarrow> path \<Rightarrow> node \<Rightarrow> filesystem" where
  "put fs p n = unlink fs p @ [(p, n)]"

text \<open>\<^verbatim>\<open>os.mkdir(p)\<close>\<close>

definition mkdir :: "filesystem \<Rightarrow> path \<Rightarrow> error + filesystem" where
  "mkdir fs p =
     (if lookup fs p \<noteq> None then Inl FileExistsError
      else case lookup fs (butlast p) of
             None \<Rightarrow> Inl FileNotFoundError
           | Some (File t c) \<Rightarrow> Inl NotADirectoryError
           | Some Dir \<Rightarrow> Inr (put fs p Dir))"

text \<open>
  \<^verbatim>\<open>os.makedirs(p, exist_ok=True)\<close>: the missing ancestors first (a
  \<^verbatim>\<open>FileExistsError\<close> from there is swallowed), then \<^verbatim>\<open>mkdir(p)\<close>, whose error is
  swallowed when \<^verbatim>\<open>p\<close> is a directory.
\<close>

function makedirs :: "filesystem \<Rightarrow> path \<Rightarrow> error + filesystem" where
  "makedirs fs p =
     (case (if p \<noteq> [] \<and> butlast p \<noteq> [] \<and> \<not> path_exists fs (butlast p)
            then (case makedirs fs (butlast p) of
                    Inl e \<Rightarrow> if e = FileExistsError then Inr fs else Inl e
                  | Inr fs1 \<Rightarrow> Inr fs1)
            else Inr fs) of
        Inl e \<Rightarrow> Inl e
      | Inr fs1 \<Rightarrow>
          (case mkdir fs1 p of
             Inl e \<Rightarrow> if lookup fs1 p = Some Dir then Inr fs1 else Inl e
           | Inr fs2 \<Rightarrow> Inr fs2))"
  by pat_completeness auto
termination
  by (relation "measure (\<lambda>(fs, p). length p)") auto

declare makedirs.simps [simp del]

text \<open>
  \<^verbatim>\<open>shutil.copy2(s, d)\<close>: into the directory \<^verbatim>\<open>d\<close> under the base name of \<^verbatim>\<open>s\<close> when
  \<^verbatim>\<open>d\<close> is a directory; the bytes and the modification time of \<^verbatim>\<open>s\<close> are copied.
\<close>

definition copy2 :: "filesystem \<Rightarrow> path \<Rightarrow> path \<Rightarrow> error + filesystem" where
  "copy2 fs s d =
     (let d' = (if lookup fs d = Some Dir \<and> s \<noteq> [] then d @ [last s] else d) in
      if d' = s \<and> path_exists fs s then Inl SameFileError
      else case lookup fs s of
        None \<Rightarrow> Inl FileNotFoundError
      | Some Dir \<Rightarrow> Inl IsADirectoryError
      | Some (File t c) \<Rightarrow>
          (case lookup fs (butlast d') of
             None \<Rightarrow> Inl FileNotFoundError
           | Some (File t' c') \<Rightarrow> Inl NotADirectoryError
           | Some Dir \<Rightarrow>
               if lookup fs d' = Some Dir then Inl IsADirectoryError
               else Inr (put fs d' (File t c))))"

text \<open>\<^verbatim>\<open>os.remove(p)\<close>\<close>

definition os_remove :: "filesystem \<Rightarrow> path \<Rightarrow> error + filesystem" where
  "os_remove fs p =
     (case lookup fs p of
        None \<Rightarrow> Inl FileNotFoundError
      | Some Dir \<Rightarrow> Inl IsADirectoryError
      | Some (File t c) \<Rightarrow> Inr (unlink fs p))"

text \<open>\<^verbatim>\<open>shutil.rmtree(p)\<close>: the directory and everything below it.\<close>

definition rmtree :: "filesystem \<Rightarrow> path \<Rightarrow> error + filesystem" where
  "rmtree fs p =
     (case lookup fs p of
        None \<Rightarrow> Inl FileNotFoundError
      | Some (File t c) \<Rightarrow> Inl NotADirectoryError
      | Some Dir \<Rightarrow> Inr (filter (\<lambda>e. \<not> prefix p (fst e)) fs))"

text \<open>
  \<^verbatim>\<open>os.path.relpath(p, start)\<close> on normalised paths: one \<^verbatim>\<open>..\<close> for every segment of
  \<^verbatim>\<open>start\<close> after the common prefix, then the rest of \<^verbatim>\<open>p\<close>; \<^verbatim>\<open>.\<close> when that is
  empty. \<^verbatim>\<open>os.path.join(a, r)\<close> for a relative \<^verbatim>\<open>r\<close> is \<^verbatim>\<open>a @ r\<close>.
\<close>

definition relpath :: "path \<Rightarrow> path \<Rightarrow> path" where
  "relpath p start =
     (let i = length (longest_common_prefix start p);
          rel = replicate (length start - i) ''..'' @ drop i p
      in if rel = [] then [''.''] else rel)"

text \<open>
  The names in a directory, as \<^verbatim>\<open>os.scandir\<close> lists them (each once), split by
  \<^verbatim>\<open>os.walk\<close> into the directories and the rest. \<^verbatim>\<open>None\<close> when \<^verbatim>\<open>p\<close> is not a
  directory: \<^verbatim>\<open>scandir\<close> raises there.
\<close>

definition names :: "filesystem \<Rightarrow> path \<Rightarrow> string list" where
  "names fs p = remdups (map (\<lambda>e. last (fst e)) (filter (\<lambda>e. fst e \<noteq> [] \<and> butlast (fst e) = p) fs))"

definition scandir :: "filesystem \<Rightarrow> path \<Rightarrow> (string list \<times> string list) option" where
  "scandir fs p =
     (if lookup fs p = Some Dir
      then Some (filter (\<lambda>x. lookup fs (p @ [x]) = Some Dir) (names fs p),
                 filter (\<lambda>x. lookup fs (p @ [x]) \<noteq> Some Dir) (names fs p))
      else None)"

section \<open>The pass\<close>

text \<open>
  What \<^verbatim>\<open>logger.info\<close> receives, with the relative path of the message. The two
  \<^verbatim>\<open>logger.debug\<close> lines and the duration they print are left out.
\<close>

datatype event =
    CreatedDirectory path
  | CreatedFile path
  | ModifiedFile path
  | RemovedFile path
  | RemovedDirectory path

record state =
  disk :: filesystem
  log :: "event list"

text \<open>
  An exception leaves \<^verbatim>\<open>sync\<close> at once: the result is the error with the state
  reached, or the state at the end.
\<close>

type_synonym result = "(error \<times> state) + state"

definition info :: "event \<Rightarrow> state \<Rightarrow> state" where
  "info e st = st\<lparr>log := log st @ [e]\<rparr>"

text \<open>Lines 113 to 120: \<^verbatim>\<open>for dir in dirs\<close> of the first walk.\<close>

fun create_dirs :: "path \<Rightarrow> path \<Rightarrow> path \<Rightarrow> string list \<Rightarrow> state \<Rightarrow> result" where
  "create_dirs src dest root [] st = Inr st"
| "create_dirs src dest root (dir # dirs) st =
     (let src_path = root @ [dir];
          dest_path = dest @ relpath src_path src
      in if \<not> path_exists (disk st) dest_path
         then (case makedirs (disk st) dest_path of
                 Inl e \<Rightarrow> Inl (e, st)
               | Inr fs' \<Rightarrow>
                   create_dirs src dest root dirs
                     (info (CreatedDirectory (relpath dest_path dest)) (st\<lparr>disk := fs'\<rparr>)))
         else create_dirs src dest root dirs st)"

text \<open>Lines 123 to 133: \<^verbatim>\<open>for file in files\<close> of the first walk.\<close>

fun copy_files :: "path \<Rightarrow> path \<Rightarrow> path \<Rightarrow> string list \<Rightarrow> state \<Rightarrow> result" where
  "copy_files src dest root [] st = Inr st"
| "copy_files src dest root (file # files) st =
     (let src_path = root @ [file];
          dest_path = dest @ relpath src_path src
      in if \<not> path_exists (disk st) dest_path
         then (case copy2 (disk st) src_path dest_path of
                 Inl e \<Rightarrow> Inl (e, st)
               | Inr fs' \<Rightarrow>
                   copy_files src dest root files
                     (info (CreatedFile (relpath src_path src)) (st\<lparr>disk := fs'\<rparr>)))
         else (case getmtime (disk st) src_path of
                 Inl e \<Rightarrow> Inl (e, st)
               | Inr ts \<Rightarrow>
                  (case getmtime (disk st) dest_path of
                     Inl e \<Rightarrow> Inl (e, st)
                   | Inr td \<Rightarrow>
                       if ts > td
                       then (case copy2 (disk st) src_path dest_path of
                               Inl e \<Rightarrow> Inl (e, st)
                             | Inr fs' \<Rightarrow>
                                 copy_files src dest root files
                                   (info (ModifiedFile (relpath src_path src)) (st\<lparr>disk := fs'\<rparr>)))
                       else copy_files src dest root files st)))"

text \<open>Lines 138 to 144: \<^verbatim>\<open>for file in files\<close> of the second walk.\<close>

fun remove_files :: "path \<Rightarrow> path \<Rightarrow> path \<Rightarrow> string list \<Rightarrow> state \<Rightarrow> result" where
  "remove_files src dest root [] st = Inr st"
| "remove_files src dest root (file # files) st =
     (let dest_path = root @ [file];
          src_path = src @ relpath dest_path dest
      in if \<not> path_exists (disk st) src_path
         then (case os_remove (disk st) dest_path of
                 Inl e \<Rightarrow> Inl (e, st)
               | Inr fs' \<Rightarrow>
                   remove_files src dest root files
                     (info (RemovedFile (relpath dest_path dest)) (st\<lparr>disk := fs'\<rparr>)))
         else remove_files src dest root files st)"

text \<open>Lines 147 to 154: \<^verbatim>\<open>for dir in dirs\<close> of the second walk.\<close>

fun remove_dirs :: "path \<Rightarrow> path \<Rightarrow> path \<Rightarrow> string list \<Rightarrow> state \<Rightarrow> result" where
  "remove_dirs src dest root [] st = Inr st"
| "remove_dirs src dest root (dir # dirs) st =
     (let dest_path = root @ [dir];
          src_path = src @ relpath dest_path dest
      in if \<not> path_exists (disk st) src_path
         then (case rmtree (disk st) dest_path of
                 Inl e \<Rightarrow> Inl (e, st)
               | Inr fs' \<Rightarrow>
                   remove_dirs src dest root dirs
                     (info (RemovedDirectory (relpath dest_path dest)) (st\<lparr>disk := fs'\<rparr>)))
         else remove_dirs src dest root dirs st)"

text \<open>The body of the first loop (phase A) and of the second (phase B).\<close>

definition phase_a :: "path \<Rightarrow> path \<Rightarrow> path \<Rightarrow> string list \<Rightarrow> string list \<Rightarrow> state \<Rightarrow> result" where
  "phase_a src dest root dirs files st =
     (case create_dirs src dest root dirs st of
        Inl e \<Rightarrow> Inl e
      | Inr st1 \<Rightarrow> copy_files src dest root files st1)"

definition phase_b :: "path \<Rightarrow> path \<Rightarrow> path \<Rightarrow> string list \<Rightarrow> string list \<Rightarrow> state \<Rightarrow> result" where
  "phase_b src dest root dirs files st =
     (case remove_files src dest root files st of
        Inl e \<Rightarrow> Inl e
      | Inr st1 \<Rightarrow> remove_dirs src dest root dirs st1)"

text \<open>
  \<^verbatim>\<open>for root, dirs, files in os.walk(top)\<close>, top-down and with the default
  \<^verbatim>\<open>onerror=None\<close>: a directory is listed when the walk reaches it, after the loop body
  has run on everything before it; a path that cannot be listed is skipped without an
  error; the subdirectories are entered in the order of \<^verbatim>\<open>dirs\<close>, as listed before the
  body ran. The walk of a tree that grows under the walk does not end, so the model
  counts the depth left: \<^verbatim>\<open>None\<close> says that it was not enough.
\<close>

fun for_each :: "('a \<Rightarrow> state \<Rightarrow> result option) \<Rightarrow> 'a list \<Rightarrow> state \<Rightarrow> result option" where
  "for_each f [] st = Some (Inr st)"
| "for_each f (x # xs) st =
     (case f x st of
        None \<Rightarrow> None
      | Some (Inl e) \<Rightarrow> Some (Inl e)
      | Some (Inr st') \<Rightarrow> for_each f xs st')"

primrec walk :: "nat \<Rightarrow> (path \<Rightarrow> string list \<Rightarrow> string list \<Rightarrow> state \<Rightarrow> result) \<Rightarrow> path \<Rightarrow> state
                 \<Rightarrow> result option" where
  "walk 0 body top_dir st = None"
| "walk (Suc n) body top_dir st =
     (case scandir (disk st) top_dir of
        None \<Rightarrow> Some (Inr st)
      | Some (dirs, files) \<Rightarrow>
          (case body top_dir dirs files st of
             Inl e \<Rightarrow> Some (Inl e)
           | Inr st' \<Rightarrow> for_each (\<lambda>d. walk n body (top_dir @ [d])) dirs st'))"

text \<open>\<^verbatim>\<open>sync(src, dest)\<close>\<close>

definition sync :: "nat \<Rightarrow> path \<Rightarrow> path \<Rightarrow> state \<Rightarrow> result option" where
  "sync n src dest st =
     (case walk n (phase_a src dest) src st of
        None \<Rightarrow> None
      | Some (Inl e) \<Rightarrow> Some (Inl e)
      | Some (Inr st1) \<Rightarrow> walk n (phase_b src dest) dest st1)"

section \<open>Notions used to state the properties\<close>

text \<open>Neither root lies inside the other, and they are not the same directory.\<close>

definition separate :: "path \<Rightarrow> path \<Rightarrow> bool" where
  "separate src dest = (\<not> prefix src dest \<and> \<not> prefix dest src)"

text \<open>No entry lies more than \<^verbatim>\<open>k\<close> levels below \<^verbatim>\<open>p\<close>.\<close>

definition depth_le :: "filesystem \<Rightarrow> path \<Rightarrow> nat \<Rightarrow> bool" where
  "depth_le fs p k = (\<forall>q. lookup fs (p @ q) \<noteq> None \<longrightarrow> length q \<le> k)"

text \<open>
  The path \<^verbatim>\<open>p\<close> is, or lies below, a path \<^verbatim>\<open>dest/r/q\<close> whose counterpart
  \<^verbatim>\<open>src/r/q\<close> does not exist.
\<close>

definition pruned :: "filesystem \<Rightarrow> path \<Rightarrow> path \<Rightarrow> path \<Rightarrow> path \<Rightarrow> bool" where
  "pruned fs src dest r p =
     (\<exists>q. q \<noteq> [] \<and> prefix (dest @ r @ q) p \<and> lookup fs (src @ r @ q) = None)"

text \<open>
  Removing entries of the destination cannot change what exists in the source: the roots
  are separate, or nothing exists at or below the source root.
\<close>

definition indep :: "path \<Rightarrow> path \<Rightarrow> filesystem \<Rightarrow> bool" where
  "indep src dest fs = (separate src dest \<or> (\<forall>a. lookup fs (src @ a) = None))"

text \<open>
  What the first walk leaves at a destination path, from the entry at the source path and
  the entry at the destination path before the walk, and what it logs for that path.
\<close>

fun merged :: "node option \<Rightarrow> node option \<Rightarrow> node option" where
  "merged None d = d"
| "merged (Some s) None = Some s"
| "merged (Some (File t c)) (Some (File t' c')) = (if t > t' then Some (File t c) else Some (File t' c'))"
| "merged (Some s) (Some d) = Some d"

fun change :: "path \<Rightarrow> node option \<Rightarrow> node option \<Rightarrow> event option" where
  "change p (Some Dir) None = Some (CreatedDirectory p)"
| "change p (Some (File t c)) None = Some (CreatedFile p)"
| "change p (Some (File t c)) (Some (File t' c')) = (if t > t' then Some (ModifiedFile p) else None)"
| "change p s d = None"

fun is_file :: "node option \<Rightarrow> bool" where
  "is_file (Some (File t c)) = True"
| "is_file n = False"

text \<open>
  The kinds of the two trees clash below \<^verbatim>\<open>r\<close>: some entry of the source has, in the
  destination, a regular file in the place of its parent directory, or is a regular file
  where the destination has a directory.
\<close>

definition clash :: "filesystem \<Rightarrow> path \<Rightarrow> path \<Rightarrow> path \<Rightarrow> bool" where
  "clash fs src dest r =
     (\<exists>q x. lookup fs (src @ r @ q @ [x]) \<noteq> None \<and>
        (is_file (lookup fs (dest @ r @ q)) \<or>
         (is_file (lookup fs (src @ r @ q @ [x])) \<and> lookup fs (dest @ r @ q @ [x]) = Some Dir)))"

text \<open>The events that the first walk owes for the paths below \<^verbatim>\<open>r\<close>.\<close>

definition changes :: "filesystem \<Rightarrow> path \<Rightarrow> path \<Rightarrow> path \<Rightarrow> event set" where
  "changes fs src dest r =
     {e. \<exists>q. q \<noteq> [] \<and> change (r @ q) (lookup fs (src @ r @ q)) (lookup fs (dest @ r @ q)) = Some e}"

text \<open>
  The file system \<^verbatim>\<open>fs'\<close> is \<^verbatim>\<open>fs\<close> with the source entries below \<^verbatim>\<open>r\<close> merged into
  the destination, and nothing else changed.
\<close>

definition mirrored :: "filesystem \<Rightarrow> path \<Rightarrow> path \<Rightarrow> path \<Rightarrow> filesystem \<Rightarrow> bool" where
  "mirrored fs src dest r fs' =
     ((\<forall>q. q \<noteq> [] \<longrightarrow>
         lookup fs' (dest @ r @ q) = merged (lookup fs (src @ r @ q)) (lookup fs (dest @ r @ q))) \<and>
      (\<forall>p. \<not> strict_prefix (dest @ r) p \<longrightarrow> lookup fs' p = lookup fs p))"

text \<open>
  The outcome of the first walk below \<^verbatim>\<open>r\<close>: an error exactly when the kinds clash,
  and otherwise the merged destination, with the events owed.
\<close>

definition good_a :: "state \<Rightarrow> path \<Rightarrow> path \<Rightarrow> path \<Rightarrow> result \<Rightarrow> bool" where
  "good_a st src dest r res =
     (case res of
        Inl e \<Rightarrow> clash (disk st) src dest r
      | Inr st' \<Rightarrow>
          \<not> clash (disk st) src dest r \<and> wf_fs (disk st') \<and>
          mirrored (disk st) src dest r (disk st') \<and>
          (\<exists>evs. log st' = log st @ evs \<and> set evs = changes (disk st) src dest r))"

text \<open>
  What the second walk logs for a destination path, from the entry there and the entry at
  the source path; the events it owes below \<^verbatim>\<open>r\<close>, one for every path without a
  counterpart whose ancestors below \<^verbatim>\<open>r\<close> all have one; and the path of an event.
\<close>

fun removal :: "path \<Rightarrow> node option \<Rightarrow> node option \<Rightarrow> event option" where
  "removal p (Some (File t c)) None = Some (RemovedFile p)"
| "removal p (Some Dir) None = Some (RemovedDirectory p)"
| "removal p d s = None"

definition removals :: "filesystem \<Rightarrow> path \<Rightarrow> path \<Rightarrow> path \<Rightarrow> event set" where
  "removals fs src dest r =
     {e. \<exists>q. q \<noteq> [] \<and> (\<forall>q'. q' \<noteq> [] \<and> strict_prefix q' q \<longrightarrow> lookup fs (src @ r @ q') \<noteq> None) \<and>
            removal (r @ q) (lookup fs (dest @ r @ q)) (lookup fs (src @ r @ q)) = Some e}"

fun event_path :: "event \<Rightarrow> path" where
  "event_path (CreatedDirectory p) = p"
| "event_path (CreatedFile p) = p"
| "event_path (ModifiedFile p) = p"
| "event_path (RemovedFile p) = p"
| "event_path (RemovedDirectory p) = p"

text \<open>The outcome of the second walk below \<^verbatim>\<open>r\<close>.\<close>

definition good_b :: "state \<Rightarrow> path \<Rightarrow> path \<Rightarrow> path \<Rightarrow> state \<Rightarrow> bool" where
  "good_b st src dest r st' =
     (wf_fs (disk st') \<and>
      (\<forall>p. lookup (disk st') p = (if pruned (disk st) src dest r p then None else lookup (disk st) p)) \<and>
      (\<exists>evs. log st' = log st @ evs \<and> distinct evs \<and> set evs = removals (disk st) src dest r))"


definition keeps :: "path \<Rightarrow> state \<Rightarrow> state \<Rightarrow> bool" where
  "keeps dest st st' =
     (wf_fs (disk st') \<and>
      (\<forall>p. \<not> prefix dest p \<and> \<not> prefix p dest \<longrightarrow> lookup (disk st') p = lookup (disk st) p))"

section \<open>Concrete file systems\<close>

definition st_c4 :: state where
  "st_c4 = \<lparr>disk = [([''d''], Dir), ([''d'', ''a''], Dir), ([''d'', ''a'', ''f''], File 1 ''x''),
                    ([''d'', ''g''], File 2 ''y'')], log = []\<rparr>"

definition st_c1 :: state where
  "st_c1 = \<lparr>disk = [([''s''], Dir), ([''d''], Dir), ([''s'', ''a''], Dir),
                    ([''s'', ''a'', ''b.txt''], File 1 ''one''), ([''s'', ''a'', ''c''], Dir)],
            log = []\<rparr>"







definition st_c3 :: state where
  "st_c3 = \<lparr>disk = [([''d''], Dir), ([''d'', ''g''], File 1 ''x'')], log = []\<rparr>"






section \<open>Facts about the file system\<close>


lemma lookup_Nil [simp]: "lookup fs [] = Some Dir"
  by (simp add: lookup_def)

lemma map_of_filter_fst:
  "map_of (filter (\<lambda>e. P (fst e)) fs) q = (if P q then map_of fs q else None)"
  by (induction fs) auto

lemma lookup_unlink: "lookup (unlink fs p) q = (if q = p \<and> q \<noteq> [] then None else lookup fs q)"
  using map_of_filter_fst [of "\<lambda>k. k \<noteq> p" fs q] by (auto simp: lookup_def unlink_def)

lemma lookup_put: "p \<noteq> [] \<Longrightarrow> lookup (put fs p n) q = (if q = p then Some n else lookup fs q)"
  using map_of_filter_fst [of "\<lambda>k. k \<noteq> p" fs q]
  by (auto simp: lookup_def put_def unlink_def map_add_def split: option.splits)

lemma lookup_prune:
  "lookup (filter (\<lambda>e. \<not> prefix p (fst e)) fs) q = (if prefix p q \<and> q \<noteq> [] then None else lookup fs q)"
  using map_of_filter_fst [of "\<lambda>k. \<not> prefix p k" fs q] by (auto simp: lookup_def)

lemma longest_common_prefix_append: "longest_common_prefix s (s @ r) = s"
  by (induction s) auto

lemma relpath_append [simp]: "r \<noteq> [] \<Longrightarrow> relpath (s @ r) s = r"
  by (simp add: relpath_def longest_common_prefix_append Let_def)

lemma relpath_append2 [simp]: "relpath (s @ r @ [x]) s = r @ [x]"
  using relpath_append [of "r @ [x]" s] by simp

lemma set_names: "set (names fs p) = {x. lookup fs (p @ [x]) \<noteq> None}"
proof -
  have "x \<in> set (names fs p) \<longleftrightarrow> map_of fs (p @ [x]) \<noteq> None" for x
  proof
    assume "x \<in> set (names fs p)"
    then obtain e where e: "e \<in> set fs" "fst e \<noteq> []" "butlast (fst e) = p" "last (fst e) = x"
      by (auto simp: names_def)
    then have "fst e = p @ [x]" using append_butlast_last_id [of "fst e"] by simp
    with e(1) show "map_of fs (p @ [x]) \<noteq> None"
      by (metis map_of_eq_None_iff image_eqI)
  next
    assume "map_of fs (p @ [x]) \<noteq> None"
    then obtain n where "(p @ [x], n) \<in> set fs" by (auto dest: map_of_SomeD)
    then show "x \<in> set (names fs p)"
      by (force simp: names_def)
  qed
  then show ?thesis by (auto simp: lookup_def)
qed

lemma distinct_names [simp]: "distinct (names fs p)"
  by (simp add: names_def)

lemma wf_fs_parent:
  assumes "wf_fs fs" "lookup fs (p @ [x]) \<noteq> None"
  shows "lookup fs p = Some Dir"
proof -
  from assms(2) obtain n where "(p @ [x], n) \<in> set fs"
    by (auto simp: lookup_def dest: map_of_SomeD)
  with assms(1) show ?thesis by (auto simp: wf_fs_def list_all_iff)
qed

lemma wf_fs_prefix:
  assumes "wf_fs fs" "lookup fs (p @ q) \<noteq> None"
  shows "q = [] \<or> lookup fs p = Some Dir"
  using assms(2)
proof (induction q rule: rev_induct)
  case Nil then show ?case by simp
next
  case (snoc x q)
  from wf_fs_parent [OF assms(1), of "p @ q" x] snoc.prems
  have "lookup fs (p @ q) = Some Dir" by simp
  with snoc.IH show ?case by (cases "q = []") auto
qed

lemma wf_fs_iff:
  "wf_fs fs \<longleftrightarrow> [] \<notin> fst ` set fs \<and> (\<forall>p x. lookup fs (p @ [x]) \<noteq> None \<longrightarrow> lookup fs p = Some Dir)"
proof
  assume w: "wf_fs fs"
  then have "[] \<notin> fst ` set fs"
    by (auto simp: wf_fs_def list_all_iff)
  with w show "[] \<notin> fst ` set fs \<and> (\<forall>p x. lookup fs (p @ [x]) \<noteq> None \<longrightarrow> lookup fs p = Some Dir)"
    using wf_fs_parent by blast
next
  assume a: "[] \<notin> fst ` set fs \<and> (\<forall>p x. lookup fs (p @ [x]) \<noteq> None \<longrightarrow> lookup fs p = Some Dir)"
  show "wf_fs fs"
    unfolding wf_fs_def list_all_iff
  proof
    fix e assume e: "e \<in> set fs"
    from a have "[] \<notin> fst ` set fs" by simp
    with e have ne: "fst e \<noteq> []" by (metis imageI)
    then have "fst e = butlast (fst e) @ [last (fst e)]" by simp
    moreover from e have "map_of fs (fst e) \<noteq> None"
      by (simp add: map_of_eq_None_iff)
    ultimately have "lookup fs (butlast (fst e) @ [last (fst e)]) \<noteq> None"
      using ne by (simp add: lookup_def)
    with a have "lookup fs (butlast (fst e)) = Some Dir" by blast
    with ne show "fst e \<noteq> [] \<and> lookup fs (butlast (fst e)) = Some Dir" by simp
  qed
qed


lemma separate_neq: "separate src dest \<Longrightarrow> src @ a \<noteq> dest @ b"
  unfolding separate_def by (metis append_eq_append_conv2 prefixI)

lemma separate_not_prefix1: "separate src dest \<Longrightarrow> \<not> prefix (dest @ b) (src @ a)"
  unfolding separate_def
  by (metis append_prefixD prefix_append prefixI prefix_same_cases)


lemma set_put: "set (put fs p n) \<subseteq> insert (p, n) (set fs)"
  by (auto simp: put_def unlink_def)

lemma wf_fs_put:
  assumes "wf_fs fs" "p \<noteq> []" "lookup fs (butlast p) = Some Dir"
    and "n = Dir \<or> (\<forall>x. lookup fs (p @ [x]) = None)"
  shows "wf_fs (put fs p n)"
proof -
  from assms(1) have k: "[] \<notin> fst ` set fs" by (simp add: wf_fs_iff)
  have k': "[] \<notin> fst ` set (put fs p n)"
  proof
    assume "[] \<in> fst ` set (put fs p n)"
    then obtain e where "e \<in> set (put fs p n)" "fst e = []" by auto
    with set_put [of fs p n] have "e = (p, n) \<or> e \<in> set fs" by auto
    with \<open>fst e = []\<close> assms(2) k show False by (metis fst_conv imageI)
  qed
  have c: "lookup (put fs p n) q = Some Dir" if h: "lookup (put fs p n) (q @ [x]) \<noteq> None" for q x
  proof (cases "q @ [x] = p")
    case True
    then have "butlast p = q" by auto
    with assms(2,3) True show ?thesis by (auto simp: lookup_put)
  next
    case False
    with h assms(2) have "lookup fs (q @ [x]) \<noteq> None" by (simp add: lookup_put)
    with assms(1) have d: "lookup fs q = Some Dir" by (rule wf_fs_parent)
    show ?thesis
    proof (cases "q = p")
      case True
      with assms(4) \<open>lookup fs (q @ [x]) \<noteq> None\<close> have "n = Dir" by auto
      with True assms(2) show ?thesis by (simp add: lookup_put)
    next
      case False
      with d assms(2) show ?thesis by (simp add: lookup_put)
    qed
  qed
  from k' c show ?thesis unfolding wf_fs_iff by blast
qed

lemma wf_fs_unlink:
  assumes "wf_fs fs" "\<forall>x. lookup fs (p @ [x]) = None"
  shows "wf_fs (unlink fs p)"
proof -
  from assms(1) have "[] \<notin> fst ` set fs" by (simp add: wf_fs_iff)
  then have k': "[] \<notin> fst ` set (unlink fs p)" by (auto simp: unlink_def)
  have c: "lookup (unlink fs p) q = Some Dir" if h: "lookup (unlink fs p) (q @ [x]) \<noteq> None" for q x
  proof -
    from h have l: "lookup fs (q @ [x]) \<noteq> None" by (auto simp: lookup_unlink split: if_splits)
    with assms(1) have d: "lookup fs q = Some Dir" by (rule wf_fs_parent)
    from l assms(2) have "q \<noteq> p" by auto
    with d show ?thesis by (simp add: lookup_unlink)
  qed
  from k' c show ?thesis unfolding wf_fs_iff by blast
qed

lemma wf_fs_prune:
  assumes "wf_fs fs"
  shows "wf_fs (filter (\<lambda>e. \<not> prefix p (fst e)) fs)"
proof -
  from assms(1) have "[] \<notin> fst ` set fs" by (simp add: wf_fs_iff)
  then have k': "[] \<notin> fst ` set (filter (\<lambda>e. \<not> prefix p (fst e)) fs)" by auto
  have c: "lookup (filter (\<lambda>e. \<not> prefix p (fst e)) fs) q = Some Dir"
    if h: "lookup (filter (\<lambda>e. \<not> prefix p (fst e)) fs) (q @ [x]) \<noteq> None" for q x
  proof -
    from h have l: "lookup fs (q @ [x]) \<noteq> None" and np: "\<not> prefix p (q @ [x])"
      by (auto simp: lookup_prune split: if_splits)
    from assms(1) l have d: "lookup fs q = Some Dir" by (rule wf_fs_parent)
    from np have "\<not> prefix p q" by (auto simp: prefix_def)
    with d show ?thesis by (simp add: lookup_prune)
  qed
  from k' c show ?thesis unfolding wf_fs_iff by blast
qed

lemma makedirs_leaf:
  assumes "p \<noteq> []" "lookup fs (butlast p) = Some Dir" "lookup fs p = None"
  shows "makedirs fs p = Inr (put fs p Dir)"
  using assms by (subst makedirs.simps) (simp add: path_exists_def mkdir_def)

lemma makedirs_under_file:
  assumes "lookup fs (butlast p) = Some (File t c)" "lookup fs p = None"
  shows "makedirs fs p = Inl NotADirectoryError"
  using assms by (subst makedirs.simps) (auto simp: path_exists_def mkdir_def)

lemma copy2_file:
  assumes "lookup fs s = Some (File t c)" "lookup fs d \<noteq> Some Dir" "d \<noteq> s"
    and "lookup fs (butlast d) = Some Dir"
  shows "copy2 fs s d = Inr (put fs d (File t c))"
  using assms by (simp add: copy2_def)

lemma copy2_under_file:
  assumes "lookup fs s = Some (File t c)" "lookup fs d = None" "d \<noteq> s"
    and "lookup fs (butlast d) = Some (File t' c')"
  shows "copy2 fs s d = Inl NotADirectoryError"
  using assms by (simp add: copy2_def)


lemma disk_info [simp]: "disk (info e st) = disk st"
  by (simp add: info_def)

lemma log_info [simp]: "log (info e st) = log st @ [e]"
  by (simp add: info_def)

lemma indep_same:
  assumes "indep src dest fs"
    and "separate src dest \<Longrightarrow> lookup fs' (src @ a) = lookup fs (src @ a)"
    and "lookup fs' (src @ a) = None \<or> lookup fs' (src @ a) = lookup fs (src @ a)"
  shows "lookup fs' (src @ a) = lookup fs (src @ a)"
  using assms by (auto simp: indep_def)

lemma indep_step:
  assumes "indep src dest fs" "\<And>a. lookup fs' (src @ a) = lookup fs (src @ a)"
  shows "indep src dest fs'"
  using assms by (simp add: indep_def)

lemma remove_files_spec:
  assumes "indep src dest (disk st)" "wf_fs (disk st)" "distinct files"
    and "\<forall>x\<in>set files. \<exists>t c. lookup (disk st) (dest @ r @ [x]) = Some (File t c)"
  shows "\<exists>st'. remove_files src dest (dest @ r) files st = Inr st' \<and> wf_fs (disk st') \<and>
           (\<forall>p. lookup (disk st') p =
                  (if \<exists>x\<in>set files. p = dest @ r @ [x] \<and> lookup (disk st) (src @ r @ [x]) = None
                   then None else lookup (disk st) p)) \<and>
           log st' = log st @ map (\<lambda>x. RemovedFile (r @ [x]))
                                 (filter (\<lambda>x. lookup (disk st) (src @ r @ [x]) = None) files)"
  using assms
proof (induction files arbitrary: st)
  case Nil
  then show ?case by simp
next
  case (Cons x xs)
  from Cons.prems obtain t c where f: "lookup (disk st) (dest @ r @ [x]) = Some (File t c)" by auto
  show ?case
  proof (cases "lookup (disk st) (src @ r @ [x]) = None")
    case False
    from Cons.prems have "\<exists>st'. remove_files src dest (dest @ r) xs st = Inr st' \<and> wf_fs (disk st') \<and>
           (\<forall>p. lookup (disk st') p =
                  (if \<exists>x\<in>set xs. p = dest @ r @ [x] \<and> lookup (disk st) (src @ r @ [x]) = None
                   then None else lookup (disk st) p)) \<and>
           log st' = log st @ map (\<lambda>x. RemovedFile (r @ [x]))
                                 (filter (\<lambda>x. lookup (disk st) (src @ r @ [x]) = None) xs)"
      by (intro Cons.IH) auto
    then obtain st' where s: "remove_files src dest (dest @ r) xs st = Inr st'" "wf_fs (disk st')"
      "\<forall>p. lookup (disk st') p =
                  (if \<exists>x\<in>set xs. p = dest @ r @ [x] \<and> lookup (disk st) (src @ r @ [x]) = None
                   then None else lookup (disk st) p)"
      "log st' = log st @ map (\<lambda>x. RemovedFile (r @ [x]))
                                 (filter (\<lambda>x. lookup (disk st) (src @ r @ [x]) = None) xs)"
      by blast
    from False s(1) have "remove_files src dest (dest @ r) (x # xs) st = Inr st'"
      by (auto simp: path_exists_def Let_def)
    moreover from False s(3) have "\<forall>p. lookup (disk st') p =
                  (if \<exists>y\<in>set (x # xs). p = dest @ r @ [y] \<and> lookup (disk st) (src @ r @ [y]) = None
                   then None else lookup (disk st) p)"
      by auto
    moreover from False s(4) have "log st' = log st @ map (\<lambda>x. RemovedFile (r @ [x]))
                                 (filter (\<lambda>x. lookup (disk st) (src @ r @ [x]) = None) (x # xs))"
      by simp
    ultimately show ?thesis using s(2) by blast
  next
    case True
    define st1 where "st1 = info (RemovedFile (r @ [x])) (st\<lparr>disk := unlink (disk st) (dest @ r @ [x])\<rparr>)"
    have d1: "disk st1 = unlink (disk st) (dest @ r @ [x])" and l1: "log st1 = log st @ [RemovedFile (r @ [x])]"
      by (simp_all add: st1_def)
    have nochild: "\<forall>y. lookup (disk st) ((dest @ r @ [x]) @ [y]) = None"
    proof (rule allI, rule ccontr)
      fix y assume "lookup (disk st) ((dest @ r @ [x]) @ [y]) \<noteq> None"
      with Cons.prems(2) have "lookup (disk st) (dest @ r @ [x]) = Some Dir" by (rule wf_fs_parent)
      with f show False by simp
    qed
    have w1: "wf_fs (disk st1)" unfolding d1 using Cons.prems(2) nochild by (rule wf_fs_unlink)
    have src1: "lookup (disk st1) (src @ a) = lookup (disk st) (src @ a)" for a
    proof (rule indep_same [OF Cons.prems(1)])
      assume sp: "separate src dest"
      show "lookup (disk st1) (src @ a) = lookup (disk st) (src @ a)"
        unfolding d1 using separate_neq [OF sp, of a "r @ [x]"] by (simp add: lookup_unlink)
    next
      show "lookup (disk st1) (src @ a) = None \<or> lookup (disk st1) (src @ a) = lookup (disk st) (src @ a)"
        unfolding d1 by (simp add: lookup_unlink)
    qed
    have i1: "indep src dest (disk st1)" using Cons.prems(1) src1 by (rule indep_step)
    have pre1: "\<forall>y\<in>set xs. \<exists>t c. lookup (disk st1) (dest @ r @ [y]) = Some (File t c)"
      unfolding d1 using Cons.prems(3,4) by (auto simp: lookup_unlink)
    from Cons.prems(3) have dx: "distinct xs" by simp
    from Cons.IH [OF i1 w1 dx pre1]
    obtain st' where s: "remove_files src dest (dest @ r) xs st1 = Inr st'" "wf_fs (disk st')"
      "\<forall>p. lookup (disk st') p =
                  (if \<exists>x\<in>set xs. p = dest @ r @ [x] \<and> lookup (disk st1) (src @ r @ [x]) = None
                   then None else lookup (disk st1) p)"
      "log st' = log st1 @ map (\<lambda>x. RemovedFile (r @ [x]))
                                 (filter (\<lambda>x. lookup (disk st1) (src @ r @ [x]) = None) xs)"
      by blast
    from True f have "remove_files src dest (dest @ r) (x # xs) st = remove_files src dest (dest @ r) xs st1"
      by (simp add: path_exists_def os_remove_def st1_def Let_def)
    with s(1) have "remove_files src dest (dest @ r) (x # xs) st = Inr st'" by simp
    moreover have "\<forall>p. lookup (disk st') p =
                  (if \<exists>y\<in>set (x # xs). p = dest @ r @ [y] \<and> lookup (disk st) (src @ r @ [y]) = None
                   then None else lookup (disk st) p)"
      using s(3) True src1 [of "r @ [_]"] unfolding d1 by (auto simp: lookup_unlink)
    moreover have "log st' = log st @ map (\<lambda>x. RemovedFile (r @ [x]))
                                 (filter (\<lambda>x. lookup (disk st) (src @ r @ [x]) = None) (x # xs))"
      using s(4) True l1 src1 [of "r @ [_]"] by simp
    ultimately show ?thesis using s(2) by blast
  qed
qed

lemma remove_dirs_spec:
  assumes "indep src dest (disk st)" "wf_fs (disk st)" "distinct dirs"
    and "\<forall>x\<in>set dirs. lookup (disk st) (dest @ r @ [x]) = Some Dir"
  shows "\<exists>st'. remove_dirs src dest (dest @ r) dirs st = Inr st' \<and> wf_fs (disk st') \<and>
           (\<forall>p. lookup (disk st') p =
                  (if \<exists>x\<in>set dirs. prefix (dest @ r @ [x]) p \<and> lookup (disk st) (src @ r @ [x]) = None
                   then None else lookup (disk st) p)) \<and>
           log st' = log st @ map (\<lambda>x. RemovedDirectory (r @ [x]))
                                 (filter (\<lambda>x. lookup (disk st) (src @ r @ [x]) = None) dirs)"
  using assms
proof (induction dirs arbitrary: st)
  case Nil
  then show ?case by simp
next
  case (Cons x xs)
  from Cons.prems have f: "lookup (disk st) (dest @ r @ [x]) = Some Dir" by auto
  show ?case
  proof (cases "lookup (disk st) (src @ r @ [x]) = None")
    case False
    from Cons.prems have "\<exists>st'. remove_dirs src dest (dest @ r) xs st = Inr st' \<and> wf_fs (disk st') \<and>
           (\<forall>p. lookup (disk st') p =
                  (if \<exists>x\<in>set xs. prefix (dest @ r @ [x]) p \<and> lookup (disk st) (src @ r @ [x]) = None
                   then None else lookup (disk st) p)) \<and>
           log st' = log st @ map (\<lambda>x. RemovedDirectory (r @ [x]))
                                 (filter (\<lambda>x. lookup (disk st) (src @ r @ [x]) = None) xs)"
      by (intro Cons.IH) auto
    then obtain st' where s: "remove_dirs src dest (dest @ r) xs st = Inr st'" "wf_fs (disk st')"
      "\<forall>p. lookup (disk st') p =
                  (if \<exists>x\<in>set xs. prefix (dest @ r @ [x]) p \<and> lookup (disk st) (src @ r @ [x]) = None
                   then None else lookup (disk st) p)"
      "log st' = log st @ map (\<lambda>x. RemovedDirectory (r @ [x]))
                                 (filter (\<lambda>x. lookup (disk st) (src @ r @ [x]) = None) xs)"
      by blast
    from False s(1) have "remove_dirs src dest (dest @ r) (x # xs) st = Inr st'"
      by (auto simp: path_exists_def Let_def)
    moreover from False s(3) have "\<forall>p. lookup (disk st') p =
                  (if \<exists>y\<in>set (x # xs). prefix (dest @ r @ [y]) p \<and> lookup (disk st) (src @ r @ [y]) = None
                   then None else lookup (disk st) p)"
      by auto
    moreover from False s(4) have "log st' = log st @ map (\<lambda>x. RemovedDirectory (r @ [x]))
                                 (filter (\<lambda>x. lookup (disk st) (src @ r @ [x]) = None) (x # xs))"
      by simp
    ultimately show ?thesis using s(2) by blast
  next
    case True
    define st1 where "st1 = info (RemovedDirectory (r @ [x])) (st\<lparr>disk := filter (\<lambda>e. \<not> prefix (dest @ r @ [x]) (fst e)) (disk st)\<rparr>)"
    have d1: "disk st1 = filter (\<lambda>e. \<not> prefix (dest @ r @ [x]) (fst e)) (disk st)" and l1: "log st1 = log st @ [RemovedDirectory (r @ [x])]"
      by (simp_all add: st1_def)
    have w1: "wf_fs (disk st1)" unfolding d1 using Cons.prems(2) by (rule wf_fs_prune)
    have src1: "lookup (disk st1) (src @ a) = lookup (disk st) (src @ a)" for a
    proof (rule indep_same [OF Cons.prems(1)])
      assume sp: "separate src dest"
      show "lookup (disk st1) (src @ a) = lookup (disk st) (src @ a)"
        unfolding d1 using separate_not_prefix1 [OF sp, of "r @ [x]" a] by (simp add: lookup_prune)
    next
      show "lookup (disk st1) (src @ a) = None \<or> lookup (disk st1) (src @ a) = lookup (disk st) (src @ a)"
        unfolding d1 by (simp add: lookup_prune)
    qed
    have i1: "indep src dest (disk st1)" using Cons.prems(1) src1 by (rule indep_step)
    have pre1: "\<forall>y\<in>set xs. lookup (disk st1) (dest @ r @ [y]) = Some Dir"
      unfolding d1 using Cons.prems(3,4) by (auto simp: lookup_prune)
    from Cons.prems(3) have dx: "distinct xs" by simp
    from Cons.IH [OF i1 w1 dx pre1]
    obtain st' where s: "remove_dirs src dest (dest @ r) xs st1 = Inr st'" "wf_fs (disk st')"
      "\<forall>p. lookup (disk st') p =
                  (if \<exists>x\<in>set xs. prefix (dest @ r @ [x]) p \<and> lookup (disk st1) (src @ r @ [x]) = None
                   then None else lookup (disk st1) p)"
      "log st' = log st1 @ map (\<lambda>x. RemovedDirectory (r @ [x]))
                                 (filter (\<lambda>x. lookup (disk st1) (src @ r @ [x]) = None) xs)"
      by blast
    from True f have "remove_dirs src dest (dest @ r) (x # xs) st = remove_dirs src dest (dest @ r) xs st1"
      by (simp add: path_exists_def rmtree_def st1_def Let_def)
    with s(1) have "remove_dirs src dest (dest @ r) (x # xs) st = Inr st'" by simp
    moreover have "\<forall>p. lookup (disk st') p =
                  (if \<exists>y\<in>set (x # xs). prefix (dest @ r @ [y]) p \<and> lookup (disk st) (src @ r @ [y]) = None
                   then None else lookup (disk st) p)"
      using s(3) True src1 [of "r @ [_]"] unfolding d1 by (auto simp: lookup_prune)
    moreover have "log st' = log st @ map (\<lambda>x. RemovedDirectory (r @ [x]))
                                 (filter (\<lambda>x. lookup (disk st) (src @ r @ [x]) = None) (x # xs))"
      using s(4) True l1 src1 [of "r @ [_]"] by simp
    ultimately show ?thesis using s(2) by blast
  qed
qed


lemma scandir_Some:
  assumes "scandir fs p = Some (dirs, files)"
  shows "lookup fs p = Some Dir" "distinct dirs" "distinct files"
    "set dirs = {x. lookup fs (p @ [x]) = Some Dir}"
    "set files = {x. \<exists>t c. lookup fs (p @ [x]) = Some (File t c)}"
proof -
  from assms show d: "lookup fs p = Some Dir" by (auto simp: scandir_def split: if_splits)
  with assms have e: "dirs = filter (\<lambda>x. lookup fs (p @ [x]) = Some Dir) (names fs p)"
    "files = filter (\<lambda>x. lookup fs (p @ [x]) \<noteq> Some Dir) (names fs p)"
    by (auto simp: scandir_def)
  then show "distinct dirs" "distinct files" by simp_all
  from e show "set dirs = {x. lookup fs (p @ [x]) = Some Dir}" by (auto simp: set_names)
  have "(lookup fs (p @ [x]) \<noteq> None \<and> lookup fs (p @ [x]) \<noteq> Some Dir) \<longleftrightarrow>
        (\<exists>t c. lookup fs (p @ [x]) = Some (File t c))" for x
    by (cases "lookup fs (p @ [x])"; auto) (metis node.exhaust)
  with e show "set files = {x. \<exists>t c. lookup fs (p @ [x]) = Some (File t c)}"
    by (auto simp: set_names)
qed

lemma scandir_None: "scandir fs p = None \<longleftrightarrow> lookup fs p \<noteq> Some Dir"
  by (simp add: scandir_def)

lemma pruned_src:
  assumes "separate src dest"
  shows "\<not> pruned fs src dest r (src @ a)"
  using separate_not_prefix1 [OF assms] by (auto simp: pruned_def)

lemma depth_le_child:
  assumes "depth_le fs p k" "lookup fs (p @ [d]) \<noteq> None"
  shows "depth_le fs (p @ [d]) (k - 1)" "0 < k"
proof -
  from assms have "length [d] \<le> k" unfolding depth_le_def by blast
  then show "0 < k" by simp
  show "depth_le fs (p @ [d]) (k - 1)"
    unfolding depth_le_def
  proof (intro allI impI)
    fix q assume "lookup fs ((p @ [d]) @ q) \<noteq> None"
    then have "lookup fs (p @ (d # q)) \<noteq> None" by simp
    with assms(1) have "length (d # q) \<le> k" unfolding depth_le_def by blast
    then show "length q \<le> k - 1" by simp
  qed
qed

lemma depth_le_antimono:
  assumes "depth_le fs p k" "\<forall>q. lookup fs' (p @ q) \<noteq> None \<longrightarrow> lookup fs (p @ q) \<noteq> None"
  shows "depth_le fs' p k"
  using assms unfolding depth_le_def by blast

lemma pruned_Cons:
  "pruned fs src dest r p \<longleftrightarrow>
     (\<exists>x. prefix (dest @ r @ [x]) p \<and> (lookup fs (src @ r @ [x]) = None \<or> pruned fs src dest (r @ [x]) p))"
proof
  assume "pruned fs src dest r p"
  then obtain q where q: "q \<noteq> []" "prefix (dest @ r @ q) p" "lookup fs (src @ r @ q) = None"
    by (auto simp: pruned_def)
  then obtain x q' where c: "q = x # q'" by (cases q) auto
  from q(2) c have px: "prefix (dest @ r @ [x]) p"
    by (metis append.assoc append_Cons append_Nil append_prefixD)
  show "\<exists>x. prefix (dest @ r @ [x]) p \<and> (lookup fs (src @ r @ [x]) = None \<or> pruned fs src dest (r @ [x]) p)"
  proof (cases "q' = []")
    case True
    with q c px show ?thesis by auto
  next
    case False
    with q c have "pruned fs src dest (r @ [x]) p" by (auto simp: pruned_def)
    with px show ?thesis by blast
  qed
next
  assume "\<exists>x. prefix (dest @ r @ [x]) p \<and> (lookup fs (src @ r @ [x]) = None \<or> pruned fs src dest (r @ [x]) p)"
  then obtain x where x: "prefix (dest @ r @ [x]) p"
    "lookup fs (src @ r @ [x]) = None \<or> pruned fs src dest (r @ [x]) p" by blast
  from x(2) show "pruned fs src dest r p"
  proof
    assume "lookup fs (src @ r @ [x]) = None"
    with x(1) show ?thesis unfolding pruned_def by blast
  next
    assume "pruned fs src dest (r @ [x]) p"
    then obtain q where "q \<noteq> []" "prefix (dest @ (r @ [x]) @ q) p" "lookup fs (src @ (r @ [x]) @ q) = None"
      by (auto simp: pruned_def)
    then have "x # q \<noteq> [] \<and> prefix (dest @ r @ (x # q)) p \<and> lookup fs (src @ r @ (x # q)) = None"
      by simp
    then show ?thesis unfolding pruned_def by blast
  qed
qed

lemma pruned_inside: "pruned fs src dest r p \<Longrightarrow> strict_prefix (dest @ r) p"
  by (auto simp: pruned_def prefix_def strict_prefix_def)

lemma depth_le_exists: "\<exists>k. depth_le fs p k"
proof -
  have "length q \<le> sum_list (map (\<lambda>e. length (fst e)) fs)" if "lookup fs (p @ q) \<noteq> None" for q
  proof (cases "p @ q = []")
    case True
    then show ?thesis by simp
  next
    case False
    with that have "map_of fs (p @ q) \<noteq> None" by (auto simp: lookup_def split: if_splits)
    then obtain n where "(p @ q, n) \<in> set fs"
      by (auto dest: map_of_SomeD)
    then have "length (fst (p @ q, n)) \<in> (\<lambda>e. length (fst e)) ` set fs"
      by (rule imageI)
    then have "length (p @ q) \<in> set (map (\<lambda>e. length (fst e)) fs)"
      by simp
    then have "length (p @ q) \<le> sum_list (map (\<lambda>e. length (fst e)) fs)"
      by (simp add: member_le_sum_list)
    then show ?thesis by simp
  qed
  then show ?thesis unfolding depth_le_def by blast
qed

lemma for_each_mono:
  assumes "\<And>x st r. x \<in> set xs \<Longrightarrow> f x st = Some r \<Longrightarrow> g x st = Some r"
  shows "for_each f xs st = Some r \<Longrightarrow> for_each g xs st = Some r"
  using assms
proof (induction xs arbitrary: st)
  case Nil
  then show ?case by simp
next
  case (Cons x xs)
  from Cons.prems(1) obtain r1 where r1: "f x st = Some r1"
    by (cases "f x st") auto
  with Cons.prems(2) have g: "g x st = Some r1" by simp
  show ?case
  proof (cases r1)
    case (Inl e)
    with r1 Cons.prems(1) have "r = Inl e" by simp
    with g Inl show ?thesis by simp
  next
    case (Inr st1)
    with r1 Cons.prems(1) have f1: "for_each f xs st1 = Some r" by simp
    have "\<And>y st r. y \<in> set xs \<Longrightarrow> f y st = Some r \<Longrightarrow> g y st = Some r"
      using Cons.prems(2) by simp
    with f1 have "for_each g xs st1 = Some r" by (rule Cons.IH)
    with g Inr show ?thesis by simp
  qed
qed

lemma walk_mono: "walk n body t st = Some r \<Longrightarrow> n \<le> m \<Longrightarrow> walk m body t st = Some r"
proof (induction n arbitrary: m t st r)
  case 0
  then show ?case by simp
next
  case (Suc n)
  from Suc.prems(2) obtain m' where m: "m = Suc m'" "n \<le> m'" by (cases m) auto
  show ?case
  proof (cases "scandir (disk st) t")
    case None
    with Suc.prems(1) m show ?thesis by simp
  next
    case (Some a)
    obtain dirs files where a: "a = (dirs, files)" by (cases a)
    show ?thesis
    proof (cases "body t dirs files st")
      case (Inl e)
      with Some a Suc.prems(1) have "r = Inl e" by simp
      with Some a Inl m show ?thesis by simp
    next
      case (Inr st1)
      with Some a Suc.prems(1) have f1: "for_each (\<lambda>d. walk n body (t @ [d])) dirs st1 = Some r" by simp
      have "for_each (\<lambda>d. walk m' body (t @ [d])) dirs st1 = Some r"
      proof (rule for_each_mono [where f = "\<lambda>d. walk n body (t @ [d])"])
        fix x st0 r0 assume "walk n body (t @ [x]) st0 = Some r0"
        then show "walk m' body (t @ [x]) st0 = Some r0" using m(2) by (rule Suc.IH)
      next
        show "for_each (\<lambda>d. walk n body (t @ [d])) dirs st1 = Some r" by (rule f1)
      qed
      with Some a Inr m show ?thesis by simp
    qed
  qed
qed

lemma sync_mono:
  assumes "sync n src dest st = Some r" "n \<le> m"
  shows "sync m src dest st = Some r"
proof -
  from assms(1) obtain r1 where r1: "walk n (phase_a src dest) src st = Some r1"
    by (cases "walk n (phase_a src dest) src st") (auto simp: sync_def)
  from walk_mono [OF r1 assms(2)] have m1: "walk m (phase_a src dest) src st = Some r1" .
  show ?thesis
  proof (cases r1)
    case (Inl e)
    with r1 assms(1) have "r = Inl e" by (simp add: sync_def)
    with Inl m1 show ?thesis by (simp add: sync_def)
  next
    case (Inr st1)
    with r1 assms(1) have "walk n (phase_b src dest) dest st1 = Some r" by (simp add: sync_def)
    from walk_mono [OF this assms(2)] m1 Inr show ?thesis by (simp add: sync_def)
  qed
qed

lemma wf_fs_missing:
  assumes "wf_fs fs" "lookup fs p = None"
  shows "lookup fs (p @ q) = None"
proof (rule ccontr)
  assume "lookup fs (p @ q) \<noteq> None"
  from wf_fs_prefix [OF assms(1) this] assms(2) have "q = []" by simp
  with \<open>lookup fs (p @ q) \<noteq> None\<close> assms(2) show False by simp
qed

lemma map_filter_cong_set:
  "(\<And>x. x \<in> set xs \<Longrightarrow> f x = g x) \<Longrightarrow> List.map_filter f xs = List.map_filter g xs"
  by (induction xs) (auto simp: List.map_filter_simps split: option.splits)

lemma create_dirs_spec:
  assumes "lookup (disk st) (dest @ r) = Some Dir"
  shows "wf_fs (disk st) \<Longrightarrow> distinct dirs \<Longrightarrow>
     \<exists>st'. create_dirs src dest (src @ r) dirs st = Inr st' \<and> wf_fs (disk st') \<and>
       (\<forall>x\<in>set dirs. lookup (disk st') (dest @ r @ [x]) = merged (Some Dir) (lookup (disk st) (dest @ r @ [x]))) \<and>
       (\<forall>p. (\<forall>x\<in>set dirs. p \<noteq> dest @ r @ [x]) \<longrightarrow> lookup (disk st') p = lookup (disk st) p) \<and>
       log st' = log st @ List.map_filter (\<lambda>x. change (r @ [x]) (Some Dir) (lookup (disk st) (dest @ r @ [x]))) dirs"
  using assms
proof (induction dirs arbitrary: st)
  case Nil
  then show ?case by (simp add: List.map_filter_simps)
next
  case (Cons x xs)
  note wf = Cons.prems(1) and par = Cons.prems(3)
  from Cons.prems(2) have dx: "distinct xs" and nx: "x \<notin> set xs" by simp_all
  from nx have keepx: "\<forall>y\<in>set xs. dest @ r @ [x] \<noteq> dest @ r @ [y]" by auto
  show ?case
  proof (cases "lookup (disk st) (dest @ r @ [x])")
    case (Some a)
    from Cons.IH [OF wf dx par]
    obtain st' where s: "create_dirs src dest (src @ r) xs st = Inr st'" "wf_fs (disk st')"
      "\<forall>y\<in>set xs. lookup (disk st') (dest @ r @ [y]) = merged (Some Dir) (lookup (disk st) (dest @ r @ [y]))"
      "\<forall>p. (\<forall>y\<in>set xs. p \<noteq> dest @ r @ [y]) \<longrightarrow> lookup (disk st') p = lookup (disk st) p"
      "log st' = log st @ List.map_filter (\<lambda>x. change (r @ [x]) (Some Dir) (lookup (disk st) (dest @ r @ [x]))) xs"
      by blast
    from Some s(1) have "create_dirs src dest (src @ r) (x # xs) st = Inr st'"
      by (simp add: path_exists_def Let_def)
    moreover from s(4) keepx have "lookup (disk st') (dest @ r @ [x]) = lookup (disk st) (dest @ r @ [x])"
      by blast
    with Some s(3) have "\<forall>y\<in>set (x # xs). lookup (disk st') (dest @ r @ [y]) =
        merged (Some Dir) (lookup (disk st) (dest @ r @ [y]))" by simp
    moreover from s(4) have "\<forall>p. (\<forall>y\<in>set (x # xs). p \<noteq> dest @ r @ [y]) \<longrightarrow> lookup (disk st') p = lookup (disk st) p"
      by simp
    moreover from Some s(5) have "log st' = log st @
        List.map_filter (\<lambda>x. change (r @ [x]) (Some Dir) (lookup (disk st) (dest @ r @ [x]))) (x # xs)"
      by (simp add: List.map_filter_simps)
    ultimately show ?thesis using s(2) by blast
  next
    case None
    define st1 where "st1 = info (CreatedDirectory (r @ [x])) (st\<lparr>disk := put (disk st) (dest @ r @ [x]) Dir\<rparr>)"
    have d1: "disk st1 = put (disk st) (dest @ r @ [x]) Dir" and l1: "log st1 = log st @ [CreatedDirectory (r @ [x])]"
      by (simp_all add: st1_def)
    have lk1: "lookup (disk st1) p = (if p = dest @ r @ [x] then Some Dir else lookup (disk st) p)" for p
      unfolding d1 by (simp add: lookup_put)
    have bl: "butlast (dest @ r @ [x]) = dest @ r"
      by (simp add: butlast_append)
    have md: "makedirs (disk st) (dest @ r @ [x]) = Inr (put (disk st) (dest @ r @ [x]) Dir)"
      by (rule makedirs_leaf) (use None par bl in simp_all)
    have w1: "wf_fs (disk st1)" unfolding d1
      by (rule wf_fs_put) (use wf par bl in simp_all)
    have par1: "lookup (disk st1) (dest @ r) = Some Dir" using par by (simp add: lk1)
    from Cons.IH [OF w1 dx par1]
    obtain st' where s: "create_dirs src dest (src @ r) xs st1 = Inr st'" "wf_fs (disk st')"
      "\<forall>y\<in>set xs. lookup (disk st') (dest @ r @ [y]) = merged (Some Dir) (lookup (disk st1) (dest @ r @ [y]))"
      "\<forall>p. (\<forall>y\<in>set xs. p \<noteq> dest @ r @ [y]) \<longrightarrow> lookup (disk st') p = lookup (disk st1) p"
      "log st' = log st1 @ List.map_filter (\<lambda>x. change (r @ [x]) (Some Dir) (lookup (disk st1) (dest @ r @ [x]))) xs"
      by blast
    from None md have "create_dirs src dest (src @ r) (x # xs) st = create_dirs src dest (src @ r) xs st1"
      by (simp add: path_exists_def Let_def st1_def)
    with s(1) have "create_dirs src dest (src @ r) (x # xs) st = Inr st'" by simp
    moreover from s(4) keepx have "lookup (disk st') (dest @ r @ [x]) = lookup (disk st1) (dest @ r @ [x])"
      by blast
    with None s(3) nx have "\<forall>y\<in>set (x # xs). lookup (disk st') (dest @ r @ [y]) =
        merged (Some Dir) (lookup (disk st) (dest @ r @ [y]))" by (auto simp: lk1)
    moreover from s(4) have "\<forall>p. (\<forall>y\<in>set (x # xs). p \<noteq> dest @ r @ [y]) \<longrightarrow> lookup (disk st') p = lookup (disk st) p"
      by (simp add: lk1)
    moreover have "List.map_filter (\<lambda>y. change (r @ [y]) (Some Dir) (lookup (disk st1) (dest @ r @ [y]))) xs
         = List.map_filter (\<lambda>y. change (r @ [y]) (Some Dir) (lookup (disk st) (dest @ r @ [y]))) xs"
      using nx by (intro map_filter_cong_set) (auto simp: lk1)
    with None s(5) l1 have "log st' = log st @
        List.map_filter (\<lambda>x. change (r @ [x]) (Some Dir) (lookup (disk st) (dest @ r @ [x]))) (x # xs)"
      by (simp add: List.map_filter_simps)
    ultimately show ?thesis using s(2) by blast
  qed
qed


lemma copy_files_clash:
  assumes "lookup (disk st) (src @ r @ [x]) = Some (File t c)"
    and "lookup (disk st) (dest @ r @ [x]) = Some Dir"
  shows "copy_files src dest (src @ r) (x # xs) st = Inl (DirMtimeNotModelled, st)"
  using assms by (simp add: path_exists_def Let_def getmtime_def)

lemma copy_files_step:
  assumes sep: "separate src dest" and wf: "wf_fs (disk st)"
    and sf: "lookup (disk st) (src @ r @ [x]) = Some (File t c)"
    and par: "lookup (disk st) (dest @ r) = Some Dir"
    and nd: "lookup (disk st) (dest @ r @ [x]) \<noteq> Some Dir"
  shows "\<exists>st1. copy_files src dest (src @ r) (x # xs) st = copy_files src dest (src @ r) xs st1 \<and>
           wf_fs (disk st1) \<and>
           (\<forall>p. lookup (disk st1) p =
                  (if p = dest @ r @ [x] then merged (Some (File t c)) (lookup (disk st) p)
                   else lookup (disk st) p)) \<and>
           log st1 = log st @
             (case change (r @ [x]) (Some (File t c)) (lookup (disk st) (dest @ r @ [x])) of
                None \<Rightarrow> [] | Some e \<Rightarrow> [e])"
proof -
  have bl: "butlast (dest @ r @ [x]) = dest @ r" by (simp add: butlast_append)
  have ne: "dest @ r @ [x] \<noteq> src @ r @ [x]" using separate_neq [OF sep, of "r @ [x]" "r @ [x]"] by simp
  have cp: "copy2 (disk st) (src @ r @ [x]) (dest @ r @ [x]) = Inr (put (disk st) (dest @ r @ [x]) (File t c))"
    by (rule copy2_file) (use sf nd ne par bl in simp_all)
  have nochild: "\<forall>y. lookup (disk st) ((dest @ r @ [x]) @ [y]) = None"
  proof (rule allI, rule ccontr)
    fix y assume "lookup (disk st) ((dest @ r @ [x]) @ [y]) \<noteq> None"
    with wf have "lookup (disk st) (dest @ r @ [x]) = Some Dir" by (rule wf_fs_parent)
    with nd show False by simp
  qed
  have wput: "wf_fs (put (disk st) (dest @ r @ [x]) (File t c))"
    by (rule wf_fs_put) (use wf par bl nochild in simp_all)
  show ?thesis
  proof (cases "lookup (disk st) (dest @ r @ [x])")
    case None
    define st1 where "st1 = info (CreatedFile (r @ [x])) (st\<lparr>disk := put (disk st) (dest @ r @ [x]) (File t c)\<rparr>)"
    have "copy_files src dest (src @ r) (x # xs) st = copy_files src dest (src @ r) xs st1"
      using None cp by (simp add: path_exists_def Let_def st1_def)
    moreover have "wf_fs (disk st1)" using wput by (simp add: st1_def)
    moreover have "\<forall>p. lookup (disk st1) p =
                  (if p = dest @ r @ [x] then merged (Some (File t c)) (lookup (disk st) p)
                   else lookup (disk st) p)"
      using None by (simp add: st1_def lookup_put)
    moreover have "log st1 = log st @
             (case change (r @ [x]) (Some (File t c)) (lookup (disk st) (dest @ r @ [x])) of
                None \<Rightarrow> [] | Some e \<Rightarrow> [e])"
      using None by (simp add: st1_def)
    ultimately show ?thesis by blast
  next
    case (Some a)
    with nd obtain t' c' where a: "a = File t' c'" by (cases a) auto
    show ?thesis
    proof (cases "t > t'")
      case True
      define st1 where "st1 = info (ModifiedFile (r @ [x])) (st\<lparr>disk := put (disk st) (dest @ r @ [x]) (File t c)\<rparr>)"
      have "copy_files src dest (src @ r) (x # xs) st = copy_files src dest (src @ r) xs st1"
        using Some a True cp sf by (simp add: path_exists_def Let_def st1_def getmtime_def)
      moreover have "wf_fs (disk st1)" using wput by (simp add: st1_def)
      moreover have "\<forall>p. lookup (disk st1) p =
                  (if p = dest @ r @ [x] then merged (Some (File t c)) (lookup (disk st) p)
                   else lookup (disk st) p)"
        using Some a True by (simp add: st1_def lookup_put)
      moreover have "log st1 = log st @
             (case change (r @ [x]) (Some (File t c)) (lookup (disk st) (dest @ r @ [x])) of
                None \<Rightarrow> [] | Some e \<Rightarrow> [e])"
        using Some a True by (simp add: st1_def)
      ultimately show ?thesis by blast
    next
      case False
      have "copy_files src dest (src @ r) (x # xs) st = copy_files src dest (src @ r) xs st"
        using Some a False sf by (simp add: path_exists_def Let_def getmtime_def)
      moreover have "\<forall>p. lookup (disk st) p =
                  (if p = dest @ r @ [x] then merged (Some (File t c)) (lookup (disk st) p)
                   else lookup (disk st) p)"
        using Some a False by simp
      moreover have "log st = log st @
             (case change (r @ [x]) (Some (File t c)) (lookup (disk st) (dest @ r @ [x])) of
                None \<Rightarrow> [] | Some e \<Rightarrow> [e])"
        using Some a False by simp
      ultimately show ?thesis using wf by blast
    qed
  qed
qed


lemma map_filter_Cons_case:
  "List.map_filter f (x # xs) = (case f x of None \<Rightarrow> [] | Some e \<Rightarrow> [e]) @ List.map_filter f xs"
  by (simp add: List.map_filter_simps split: option.splits)

lemma copy_files_spec:
  assumes sep: "separate src dest"
  shows "wf_fs (disk st) \<Longrightarrow> distinct files \<Longrightarrow>
     \<forall>x\<in>set files. \<exists>t c. lookup (disk st) (src @ r @ [x]) = Some (File t c) \<Longrightarrow>
     lookup (disk st) (dest @ r) = Some Dir \<Longrightarrow>
     (case copy_files src dest (src @ r) files st of
        Inl e \<Rightarrow> \<exists>x\<in>set files. lookup (disk st) (dest @ r @ [x]) = Some Dir
      | Inr st' \<Rightarrow>
          (\<forall>x\<in>set files. lookup (disk st) (dest @ r @ [x]) \<noteq> Some Dir) \<and> wf_fs (disk st') \<and>
          (\<forall>x\<in>set files. lookup (disk st') (dest @ r @ [x]) =
              merged (lookup (disk st) (src @ r @ [x])) (lookup (disk st) (dest @ r @ [x]))) \<and>
          (\<forall>p. (\<forall>x\<in>set files. p \<noteq> dest @ r @ [x]) \<longrightarrow> lookup (disk st') p = lookup (disk st) p) \<and>
          log st' = log st @ List.map_filter
             (\<lambda>x. change (r @ [x]) (lookup (disk st) (src @ r @ [x])) (lookup (disk st) (dest @ r @ [x]))) files)"
proof (induction files arbitrary: st)
  case Nil
  then show ?case by (simp add: List.map_filter_simps)
next
  case (Cons x xs)
  note wf = Cons.prems(1) and par = Cons.prems(4)
  from Cons.prems(2) have dx: "distinct xs" and nx: "x \<notin> set xs" by simp_all
  from nx have keepx: "\<forall>y\<in>set xs. dest @ r @ [x] \<noteq> dest @ r @ [y]" by auto
  from Cons.prems(3) obtain t c where sf: "lookup (disk st) (src @ r @ [x]) = Some (File t c)" by auto
  show ?case
  proof (cases "lookup (disk st) (dest @ r @ [x]) = Some Dir")
    case True
    from copy_files_clash [OF sf True] True show ?thesis by simp
  next
    case False
    from copy_files_step [OF sep wf sf par False, of xs]
    obtain st1 where 1: "copy_files src dest (src @ r) (x # xs) st = copy_files src dest (src @ r) xs st1"
      "wf_fs (disk st1)"
      "\<forall>p. lookup (disk st1) p =
                  (if p = dest @ r @ [x] then merged (Some (File t c)) (lookup (disk st) p)
                   else lookup (disk st) p)"
      "log st1 = log st @
             (case change (r @ [x]) (Some (File t c)) (lookup (disk st) (dest @ r @ [x])) of
                None \<Rightarrow> [] | Some e \<Rightarrow> [e])"
      by blast
    have src1: "lookup (disk st1) (src @ a) = lookup (disk st) (src @ a)" for a
      using 1(3) separate_neq [OF sep, of a "r @ [x]"] by simp
    have oth: "lookup (disk st1) (dest @ r @ [y]) = lookup (disk st) (dest @ r @ [y])" if "y \<in> set xs" for y
      using 1(3) that nx by auto
    have par1: "lookup (disk st1) (dest @ r) = Some Dir" using 1(3) par by simp
    have pre1: "\<forall>y\<in>set xs. \<exists>t c. lookup (disk st1) (src @ r @ [y]) = Some (File t c)"
      using Cons.prems(3) src1 [of "r @ [_]"] by simp
    note ih = Cons.IH [OF 1(2) dx pre1 par1]
    show ?thesis
    proof (cases "copy_files src dest (src @ r) xs st1")
      case (Inl e)
      with ih obtain y where "y \<in> set xs" "lookup (disk st1) (dest @ r @ [y]) = Some Dir" by auto
      with oth have "\<exists>y\<in>set (x # xs). lookup (disk st) (dest @ r @ [y]) = Some Dir" by auto
      with Inl 1(1) show ?thesis by simp
    next
      case (Inr st')
      with ih have s: "\<forall>y\<in>set xs. lookup (disk st1) (dest @ r @ [y]) \<noteq> Some Dir" "wf_fs (disk st')"
        "\<forall>y\<in>set xs. lookup (disk st') (dest @ r @ [y]) =
              merged (lookup (disk st1) (src @ r @ [y])) (lookup (disk st1) (dest @ r @ [y]))"
        "\<forall>p. (\<forall>y\<in>set xs. p \<noteq> dest @ r @ [y]) \<longrightarrow> lookup (disk st') p = lookup (disk st1) p"
        "log st' = log st1 @ List.map_filter
             (\<lambda>y. change (r @ [y]) (lookup (disk st1) (src @ r @ [y])) (lookup (disk st1) (dest @ r @ [y]))) xs"
        by simp_all
      have a: "\<forall>y\<in>set (x # xs). lookup (disk st) (dest @ r @ [y]) \<noteq> Some Dir"
        using s(1) oth False by auto
      from s(4) keepx have "lookup (disk st') (dest @ r @ [x]) = lookup (disk st1) (dest @ r @ [x])"
        by blast
      with 1(3) sf have bx: "lookup (disk st') (dest @ r @ [x]) =
          merged (lookup (disk st) (src @ r @ [x])) (lookup (disk st) (dest @ r @ [x]))" by simp
      have b: "\<forall>y\<in>set (x # xs). lookup (disk st') (dest @ r @ [y]) =
              merged (lookup (disk st) (src @ r @ [y])) (lookup (disk st) (dest @ r @ [y]))"
        using bx s(3) oth src1 [of "r @ [_]"] by simp
      have c: "\<forall>p. (\<forall>y\<in>set (x # xs). p \<noteq> dest @ r @ [y]) \<longrightarrow> lookup (disk st') p = lookup (disk st) p"
        using s(4) 1(3) by simp
      have "List.map_filter
             (\<lambda>y. change (r @ [y]) (lookup (disk st1) (src @ r @ [y])) (lookup (disk st1) (dest @ r @ [y]))) xs
          = List.map_filter
             (\<lambda>y. change (r @ [y]) (lookup (disk st) (src @ r @ [y])) (lookup (disk st) (dest @ r @ [y]))) xs"
        by (intro map_filter_cong_set) (use oth src1 [of "r @ [_]"] in simp)
      with s(5) 1(4) sf have d: "log st' = log st @ List.map_filter
             (\<lambda>y. change (r @ [y]) (lookup (disk st) (src @ r @ [y])) (lookup (disk st) (dest @ r @ [y]))) (x # xs)"
        by (simp add: List.map_filter_simps split: option.splits)
      from Inr 1(1) a s(2) b c d show ?thesis by simp
    qed
  qed
qed


lemma set_map_filter: "set (List.map_filter f xs) = {e. \<exists>x\<in>set xs. f x = Some e}"
  by (induction xs) (auto simp: List.map_filter_simps split: option.splits)

lemma is_file_iff: "is_file n \<longleftrightarrow> (\<exists>t c. n = Some (File t c))"
  by (cases n rule: is_file.cases) auto

lemma create_dirs_under_file:
  assumes "wf_fs (disk st)" "is_file (lookup (disk st) (dest @ r))"
  shows "create_dirs src dest (src @ r) (x # xs) st = Inl (NotADirectoryError, st)"
proof -
  from assms(2) obtain t c where f: "lookup (disk st) (dest @ r) = Some (File t c)"
    by (auto simp: is_file_iff)
  have n: "lookup (disk st) (dest @ r @ [x]) = None"
  proof (rule ccontr)
    assume "lookup (disk st) (dest @ r @ [x]) \<noteq> None"
    then have "lookup (disk st) ((dest @ r) @ [x]) \<noteq> None" by simp
    with assms(1) have "lookup (disk st) (dest @ r) = Some Dir" by (rule wf_fs_parent)
    with f show False by simp
  qed
  have bl: "butlast (dest @ r @ [x]) = dest @ r" by (simp add: butlast_append)
  have "makedirs (disk st) (dest @ r @ [x]) = Inl NotADirectoryError"
    by (rule makedirs_under_file [where t = t and c = c]) (use f n bl in simp_all)
  with n show ?thesis by (simp add: path_exists_def Let_def)
qed

lemma copy_files_under_file:
  assumes "separate src dest" "wf_fs (disk st)" "is_file (lookup (disk st) (dest @ r))"
    and "is_file (lookup (disk st) (src @ r @ [x]))"
  shows "copy_files src dest (src @ r) (x # xs) st = Inl (NotADirectoryError, st)"
proof -
  from assms(3) obtain t c where f: "lookup (disk st) (dest @ r) = Some (File t c)"
    by (auto simp: is_file_iff)
  from assms(4) obtain t' c' where sf: "lookup (disk st) (src @ r @ [x]) = Some (File t' c')"
    by (auto simp: is_file_iff)
  have n: "lookup (disk st) (dest @ r @ [x]) = None"
  proof (rule ccontr)
    assume "lookup (disk st) (dest @ r @ [x]) \<noteq> None"
    then have "lookup (disk st) ((dest @ r) @ [x]) \<noteq> None" by simp
    with assms(2) have "lookup (disk st) (dest @ r) = Some Dir" by (rule wf_fs_parent)
    with f show False by simp
  qed
  have bl: "butlast (dest @ r @ [x]) = dest @ r" by (simp add: butlast_append)
  have ne: "dest @ r @ [x] \<noteq> src @ r @ [x]"
    using separate_neq [OF assms(1), of "r @ [x]" "r @ [x]"] by simp
  have "copy2 (disk st) (src @ r @ [x]) (dest @ r @ [x]) = Inl NotADirectoryError"
    by (rule copy2_under_file [where t' = t and c' = c]) (use sf f n bl ne in simp_all)
  with n show ?thesis by (simp add: path_exists_def Let_def)
qed

lemma phase_a_under_file:
  assumes sep: "separate src dest" and wf: "wf_fs (disk st)"
    and sc: "scandir (disk st) (src @ r) = Some (dirs, files)"
    and f: "is_file (lookup (disk st) (dest @ r))"
  shows "phase_a src dest (src @ r) dirs files st =
           (if dirs = [] \<and> files = [] then Inr st else Inl (NotADirectoryError, st))"
proof (cases dirs)
  case (Cons d ds)
  with create_dirs_under_file [OF wf f] show ?thesis by (simp add: phase_a_def)
next
  case Nil
  show ?thesis
  proof (cases files)
    case Nil
    with \<open>dirs = []\<close> show ?thesis by (simp add: phase_a_def)
  next
    case (Cons x xs)
    with scandir_Some(5) [OF sc] have "is_file (lookup (disk st) (src @ r @ [x]))"
      by (auto simp: is_file_iff)
    from copy_files_under_file [OF sep wf f this] Cons \<open>dirs = []\<close> show ?thesis
      by (simp add: phase_a_def)
  qed
qed


lemma change_None [simp]: "change p None d = None"
  by (cases d) auto

lemma phase_a_spec:
  assumes sep: "separate src dest" and wf: "wf_fs (disk st)"
    and sc: "scandir (disk st) (src @ r) = Some (dirs, files)"
    and par: "lookup (disk st) (dest @ r) = Some Dir"
  shows "case phase_a src dest (src @ r) dirs files st of
      Inl e \<Rightarrow> \<exists>x. is_file (lookup (disk st) (src @ r @ [x])) \<and> lookup (disk st) (dest @ r @ [x]) = Some Dir
    | Inr st' \<Rightarrow>
        (\<forall>x. is_file (lookup (disk st) (src @ r @ [x])) \<longrightarrow> lookup (disk st) (dest @ r @ [x]) \<noteq> Some Dir) \<and>
        wf_fs (disk st') \<and>
        (\<forall>x. lookup (disk st') (dest @ r @ [x]) =
               merged (lookup (disk st) (src @ r @ [x])) (lookup (disk st) (dest @ r @ [x]))) \<and>
        (\<forall>p. (\<forall>x. p \<noteq> dest @ r @ [x]) \<longrightarrow> lookup (disk st') p = lookup (disk st) p) \<and>
        (\<exists>evs. log st' = log st @ evs \<and>
           set evs = {e. \<exists>x. change (r @ [x]) (lookup (disk st) (src @ r @ [x]))
                                (lookup (disk st) (dest @ r @ [x])) = Some e})"
proof -
  note s = scandir_Some [OF sc]
  have sd: "lookup (disk st) (src @ r @ [x]) = Some Dir" if "x \<in> set dirs" for x
    using that s(4) by simp
  have sf: "is_file (lookup (disk st) (src @ r @ [x])) \<longleftrightarrow> x \<in> set files" for x
    using s(5) by (auto simp: is_file_iff)
  have sn: "lookup (disk st) (src @ r @ [x]) = None" if "x \<notin> set dirs" "x \<notin> set files" for x
  proof (cases "lookup (disk st) (src @ r @ [x])")
    case (Some a)
    with that s(4,5) show ?thesis by (cases a) auto
  qed simp
  have disj: "x \<notin> set dirs" if "x \<in> set files" for x
    using that s(4,5) by auto
  from create_dirs_spec [OF par wf s(2), of src]
  obtain st1 where 1: "create_dirs src dest (src @ r) dirs st = Inr st1" "wf_fs (disk st1)"
    "\<forall>x\<in>set dirs. lookup (disk st1) (dest @ r @ [x]) = merged (Some Dir) (lookup (disk st) (dest @ r @ [x]))"
    "\<forall>p. (\<forall>x\<in>set dirs. p \<noteq> dest @ r @ [x]) \<longrightarrow> lookup (disk st1) p = lookup (disk st) p"
    "log st1 = log st @ List.map_filter (\<lambda>x. change (r @ [x]) (Some Dir) (lookup (disk st) (dest @ r @ [x]))) dirs"
    by blast
  have src1: "lookup (disk st1) (src @ a) = lookup (disk st) (src @ a)" for a
    using 1(4) separate_neq [OF sep, of a] by simp
  have par1: "lookup (disk st1) (dest @ r) = Some Dir"
    using 1(4) par by simp
  have dst1: "lookup (disk st1) (dest @ r @ [x]) = lookup (disk st) (dest @ r @ [x])" if "x \<notin> set dirs" for x
  proof -
    from that have "\<forall>y\<in>set dirs. dest @ r @ [x] \<noteq> dest @ r @ [y]" by auto
    with 1(4) show ?thesis by blast
  qed
  have pre: "\<forall>x\<in>set files. \<exists>t c. lookup (disk st1) (src @ r @ [x]) = Some (File t c)"
    using s(5) src1 [of "r @ [_]"] by simp
  note cf = copy_files_spec [OF sep 1(2) s(3) pre par1]
  show ?thesis
  proof (cases "copy_files src dest (src @ r) files st1")
    case (Inl e)
    with cf obtain x where "x \<in> set files" "lookup (disk st1) (dest @ r @ [x]) = Some Dir" by auto
    with dst1 disj sf have "is_file (lookup (disk st) (src @ r @ [x])) \<and> lookup (disk st) (dest @ r @ [x]) = Some Dir"
      by simp
    with Inl 1(1) show ?thesis by (auto simp: phase_a_def)
  next
    case (Inr st')
    with cf have c: "\<forall>x\<in>set files. lookup (disk st1) (dest @ r @ [x]) \<noteq> Some Dir" "wf_fs (disk st')"
      "\<forall>x\<in>set files. lookup (disk st') (dest @ r @ [x]) =
              merged (lookup (disk st1) (src @ r @ [x])) (lookup (disk st1) (dest @ r @ [x]))"
      "\<forall>p. (\<forall>x\<in>set files. p \<noteq> dest @ r @ [x]) \<longrightarrow> lookup (disk st') p = lookup (disk st1) p"
      "log st' = log st1 @ List.map_filter
             (\<lambda>x. change (r @ [x]) (lookup (disk st1) (src @ r @ [x])) (lookup (disk st1) (dest @ r @ [x]))) files"
      by simp_all
    have a: "\<forall>x. is_file (lookup (disk st) (src @ r @ [x])) \<longrightarrow> lookup (disk st) (dest @ r @ [x]) \<noteq> Some Dir"
      using c(1) dst1 disj sf by simp
    have b: "lookup (disk st') (dest @ r @ [x]) =
               merged (lookup (disk st) (src @ r @ [x])) (lookup (disk st) (dest @ r @ [x]))" for x
    proof (cases "x \<in> set files")
      case True
      with c(3) src1 [of "r @ [x]"] dst1 disj show ?thesis by simp
    next
      case False
      then have "\<forall>y\<in>set files. dest @ r @ [x] \<noteq> dest @ r @ [y]" by auto
      with c(4) have e: "lookup (disk st') (dest @ r @ [x]) = lookup (disk st1) (dest @ r @ [x])" by blast
      show ?thesis
      proof (cases "x \<in> set dirs")
        case True
        with e 1(3) sd show ?thesis by simp
      next
        case nd: False
        with e dst1 sn False show ?thesis by simp
      qed
    qed
    have d: "\<forall>p. (\<forall>x. p \<noteq> dest @ r @ [x]) \<longrightarrow> lookup (disk st') p = lookup (disk st) p"
      using c(4) 1(4) by simp
    have m2: "List.map_filter
             (\<lambda>x. change (r @ [x]) (lookup (disk st1) (src @ r @ [x])) (lookup (disk st1) (dest @ r @ [x]))) files
         = List.map_filter
             (\<lambda>x. change (r @ [x]) (lookup (disk st) (src @ r @ [x])) (lookup (disk st) (dest @ r @ [x]))) files"
      by (intro map_filter_cong_set) (use src1 [of "r @ [_]"] dst1 disj in simp)
    have m1: "List.map_filter (\<lambda>x. change (r @ [x]) (Some Dir) (lookup (disk st) (dest @ r @ [x]))) dirs
         = List.map_filter
             (\<lambda>x. change (r @ [x]) (lookup (disk st) (src @ r @ [x])) (lookup (disk st) (dest @ r @ [x]))) dirs"
      by (intro map_filter_cong_set) (use sd in simp)
    define g where "g = (\<lambda>x. change (r @ [x]) (lookup (disk st) (src @ r @ [x])) (lookup (disk st) (dest @ r @ [x])))"
    have lg: "log st' = log st @ (List.map_filter g dirs @ List.map_filter g files)"
      using c(5) 1(5) m1 m2 by (simp add: g_def)
    have gn: "g x = None" if "x \<notin> set dirs" "x \<notin> set files" for x
      using sn [OF that] by (simp add: g_def)
    have "set (List.map_filter g dirs @ List.map_filter g files) = {e. \<exists>x. g x = Some e}"
    proof (intro set_eqI iffI)
      fix e assume "e \<in> set (List.map_filter g dirs @ List.map_filter g files)"
      then show "e \<in> {e. \<exists>x. g x = Some e}" by (auto simp: set_map_filter)
    next
      fix e assume "e \<in> {e. \<exists>x. g x = Some e}"
      then obtain x where x: "g x = Some e" by auto
      with gn have "x \<in> set dirs \<or> x \<in> set files" by force
      with x show "e \<in> set (List.map_filter g dirs @ List.map_filter g files)"
        by (auto simp: set_map_filter)
    qed
    with lg have ev: "\<exists>evs. log st' = log st @ evs \<and>
           set evs = {e. \<exists>x. change (r @ [x]) (lookup (disk st) (src @ r @ [x]))
                                (lookup (disk st) (dest @ r @ [x])) = Some e}"
      unfolding g_def by blast
    from Inr 1(1) have "phase_a src dest (src @ r) dirs files st = Inr st'" by (simp add: phase_a_def)
    with a c(2) b d ev show ?thesis by simp
  qed
qed


lemma clash_cong:
  assumes "\<And>a. lookup fs' (src @ a) = lookup fs (src @ a)"
    and "\<And>q. q \<noteq> [] \<Longrightarrow> lookup fs' (dest @ r @ q) = lookup fs (dest @ r @ q)"
    and "is_file (lookup fs' (dest @ r)) = is_file (lookup fs (dest @ r))"
  shows "clash fs' src dest r = clash fs src dest r"
proof -
  have f: "is_file (lookup fs' (dest @ r @ q)) = is_file (lookup fs (dest @ r @ q))" for q
    using assms(2) [of q] assms(3) by (cases "q = []") auto
  have d: "lookup fs' (dest @ r @ q @ [x]) = lookup fs (dest @ r @ q @ [x])" for q x
    using assms(2) [of "q @ [x]"] by simp
  show ?thesis unfolding clash_def by (simp only: assms(1) f d)
qed

lemma changes_cong:
  assumes "\<And>a. lookup fs' (src @ a) = lookup fs (src @ a)"
    and "\<And>q. q \<noteq> [] \<Longrightarrow> lookup fs' (dest @ r @ q) = lookup fs (dest @ r @ q)"
  shows "changes fs' src dest r = changes fs src dest r"
  unfolding changes_def using assms by auto

lemma clash_Cons:
  "clash fs src dest r \<longleftrightarrow>
     (\<exists>x. lookup fs (src @ r @ [x]) \<noteq> None \<and>
        (is_file (lookup fs (dest @ r)) \<or>
         (is_file (lookup fs (src @ r @ [x])) \<and> lookup fs (dest @ r @ [x]) = Some Dir))) \<or>
     (\<exists>d. clash fs src dest (r @ [d]))"
proof
  assume "clash fs src dest r"
  then obtain q x where c: "lookup fs (src @ r @ q @ [x]) \<noteq> None"
    "is_file (lookup fs (dest @ r @ q)) \<or>
         (is_file (lookup fs (src @ r @ q @ [x])) \<and> lookup fs (dest @ r @ q @ [x]) = Some Dir)"
    unfolding clash_def by blast
  show "(\<exists>x. lookup fs (src @ r @ [x]) \<noteq> None \<and>
        (is_file (lookup fs (dest @ r)) \<or>
         (is_file (lookup fs (src @ r @ [x])) \<and> lookup fs (dest @ r @ [x]) = Some Dir))) \<or>
     (\<exists>d. clash fs src dest (r @ [d]))"
  proof (cases q)
    case Nil
    with c show ?thesis by auto
  next
    case (Cons d q')
    with c have "clash fs src dest (r @ [d])"
      unfolding clash_def by (intro exI [of _ q'] exI [of _ x]) simp
    then show ?thesis by blast
  qed
next
  assume "(\<exists>x. lookup fs (src @ r @ [x]) \<noteq> None \<and>
        (is_file (lookup fs (dest @ r)) \<or>
         (is_file (lookup fs (src @ r @ [x])) \<and> lookup fs (dest @ r @ [x]) = Some Dir))) \<or>
     (\<exists>d. clash fs src dest (r @ [d]))"
  then show "clash fs src dest r"
  proof
    assume "\<exists>x. lookup fs (src @ r @ [x]) \<noteq> None \<and>
        (is_file (lookup fs (dest @ r)) \<or>
         (is_file (lookup fs (src @ r @ [x])) \<and> lookup fs (dest @ r @ [x]) = Some Dir))"
    then obtain x where "lookup fs (src @ r @ [] @ [x]) \<noteq> None \<and>
        (is_file (lookup fs (dest @ r @ [])) \<or>
         (is_file (lookup fs (src @ r @ [] @ [x])) \<and> lookup fs (dest @ r @ [] @ [x]) = Some Dir))"
      by auto
    then show ?thesis unfolding clash_def by blast
  next
    assume "\<exists>d. clash fs src dest (r @ [d])"
    then obtain d q x where "lookup fs (src @ (r @ [d]) @ q @ [x]) \<noteq> None \<and>
        (is_file (lookup fs (dest @ (r @ [d]) @ q)) \<or>
         (is_file (lookup fs (src @ (r @ [d]) @ q @ [x])) \<and> lookup fs (dest @ (r @ [d]) @ q @ [x]) = Some Dir))"
      unfolding clash_def by blast
    then have "lookup fs (src @ r @ (d # q) @ [x]) \<noteq> None \<and>
        (is_file (lookup fs (dest @ r @ (d # q))) \<or>
         (is_file (lookup fs (src @ r @ (d # q) @ [x])) \<and> lookup fs (dest @ r @ (d # q) @ [x]) = Some Dir))"
      by simp
    then show ?thesis unfolding clash_def by blast
  qed
qed

lemma changes_Cons:
  "changes fs src dest r =
     {e. \<exists>x. change (r @ [x]) (lookup fs (src @ r @ [x])) (lookup fs (dest @ r @ [x])) = Some e} \<union>
     (\<Union>d. changes fs src dest (r @ [d]))"
proof (intro set_eqI iffI)
  fix e assume "e \<in> changes fs src dest r"
  then obtain q where q: "q \<noteq> []" "change (r @ q) (lookup fs (src @ r @ q)) (lookup fs (dest @ r @ q)) = Some e"
    unfolding changes_def by blast
  then obtain d q' where c: "q = d # q'" by (cases q) auto
  show "e \<in> {e. \<exists>x. change (r @ [x]) (lookup fs (src @ r @ [x])) (lookup fs (dest @ r @ [x])) = Some e} \<union>
     (\<Union>d. changes fs src dest (r @ [d]))"
  proof (cases "q' = []")
    case True
    with q c show ?thesis by auto
  next
    case False
    with q c have "e \<in> changes fs src dest (r @ [d])"
      unfolding changes_def by (auto intro!: exI [of _ q'])
    then show ?thesis by blast
  qed
next
  fix e assume "e \<in> {e. \<exists>x. change (r @ [x]) (lookup fs (src @ r @ [x])) (lookup fs (dest @ r @ [x])) = Some e} \<union>
     (\<Union>d. changes fs src dest (r @ [d]))"
  then show "e \<in> changes fs src dest r"
  proof
    assume "e \<in> {e. \<exists>x. change (r @ [x]) (lookup fs (src @ r @ [x])) (lookup fs (dest @ r @ [x])) = Some e}"
    then obtain x where "[x] \<noteq> [] \<and> change (r @ [x]) (lookup fs (src @ r @ [x])) (lookup fs (dest @ r @ [x])) = Some e"
      by auto
    then show ?thesis unfolding changes_def by blast
  next
    assume "e \<in> (\<Union>d. changes fs src dest (r @ [d]))"
    then obtain d q where "q \<noteq> []" "change ((r @ [d]) @ q) (lookup fs (src @ (r @ [d]) @ q)) (lookup fs (dest @ (r @ [d]) @ q)) = Some e"
      unfolding changes_def by blast
    then have "d # q \<noteq> [] \<and> change (r @ (d # q)) (lookup fs (src @ r @ (d # q))) (lookup fs (dest @ r @ (d # q))) = Some e"
      by simp
    then show ?thesis unfolding changes_def by blast
  qed
qed

lemma clash_needs_source:
  assumes "wf_fs fs" "clash fs src dest (r @ [d])"
  shows "lookup fs (src @ r @ [d]) = Some Dir"
proof -
  from assms(2) obtain q x where "lookup fs (src @ (r @ [d]) @ q @ [x]) \<noteq> None"
    unfolding clash_def by blast
  then have "lookup fs ((src @ r @ [d]) @ (q @ [x])) \<noteq> None" by simp
  from wf_fs_prefix [OF assms(1) this] show ?thesis by simp
qed

lemma changes_needs_source:
  assumes "wf_fs fs" "e \<in> changes fs src dest (r @ [d])"
  shows "lookup fs (src @ r @ [d]) = Some Dir"
proof -
  from assms(2) obtain q where q: "q \<noteq> []"
    "change ((r @ [d]) @ q) (lookup fs (src @ (r @ [d]) @ q)) (lookup fs (dest @ (r @ [d]) @ q)) = Some e"
    unfolding changes_def by blast
  then have "lookup fs (src @ (r @ [d]) @ q) \<noteq> None" by (cases "lookup fs (src @ (r @ [d]) @ q)") auto
  then have "lookup fs ((src @ r @ [d]) @ q) \<noteq> None" by simp
  from wf_fs_prefix [OF assms(1) this] q(1) show ?thesis by simp
qed


lemma not_strict_prefix_sibling:
  "d \<noteq> d' \<Longrightarrow> \<not> strict_prefix (p @ [d]) (p @ d' # q)"
  by (auto simp: strict_prefix_def)

lemma for_each_merge:
  assumes sep: "separate src dest"
    and step: "\<And>d st. d \<in> set ds \<Longrightarrow> wf_fs (disk st) \<Longrightarrow> lookup (disk st) (dest @ r @ [d]) \<noteq> None \<Longrightarrow>
        depth_le (disk st) (src @ r @ [d]) k \<Longrightarrow>
        \<exists>res. f d st = Some res \<and> good_a st src dest (r @ [d]) res"
  shows "wf_fs (disk st) \<Longrightarrow> distinct ds \<Longrightarrow>
     \<forall>d\<in>set ds. lookup (disk st) (dest @ r @ [d]) \<noteq> None \<and> depth_le (disk st) (src @ r @ [d]) k \<Longrightarrow>
     \<exists>res. for_each f ds st = Some res \<and>
       (case res of
          Inl e \<Rightarrow> \<exists>d\<in>set ds. clash (disk st) src dest (r @ [d])
        | Inr st' \<Rightarrow>
            (\<forall>d\<in>set ds. \<not> clash (disk st) src dest (r @ [d])) \<and> wf_fs (disk st') \<and>
            (\<forall>d\<in>set ds. \<forall>q. q \<noteq> [] \<longrightarrow> lookup (disk st') (dest @ r @ d # q) =
                merged (lookup (disk st) (src @ r @ d # q)) (lookup (disk st) (dest @ r @ d # q))) \<and>
            (\<forall>p. (\<forall>d\<in>set ds. \<not> strict_prefix (dest @ r @ [d]) p) \<longrightarrow> lookup (disk st') p = lookup (disk st) p) \<and>
            (\<exists>evs. log st' = log st @ evs \<and> set evs = (\<Union>d\<in>set ds. changes (disk st) src dest (r @ [d]))))"
  using step
proof (induction ds arbitrary: st)
  case Nil
  then show ?case by simp
next
  case (Cons d ds)
  note wf = Cons.prems(1)
  from Cons.prems(2) have dx: "distinct ds" and nd: "d \<notin> set ds" by simp_all
  from Cons.prems(3) have pd: "lookup (disk st) (dest @ r @ [d]) \<noteq> None" "depth_le (disk st) (src @ r @ [d]) k"
    by simp_all
  from Cons.prems(4) [OF _ wf pd] obtain res1 where 1: "f d st = Some res1" "good_a st src dest (r @ [d]) res1"
    by auto
  show ?case
  proof (cases res1)
    case (Inl e)
    with 1 have "for_each f (d # ds) st = Some (Inl e)" "clash (disk st) src dest (r @ [d])"
      by (simp_all add: good_a_def)
    then show ?thesis by simp
  next
    case (Inr st1)
    with 1(2) have g: "\<not> clash (disk st) src dest (r @ [d])" "wf_fs (disk st1)"
      "mirrored (disk st) src dest (r @ [d]) (disk st1)"
      and "\<exists>evs. log st1 = log st @ evs \<and> set evs = changes (disk st) src dest (r @ [d])"
      by (simp_all add: good_a_def)
    then obtain evs1 where e1: "log st1 = log st @ evs1" "set evs1 = changes (disk st) src dest (r @ [d])"
      by blast
    from g(3) have m1: "\<And>q. q \<noteq> [] \<Longrightarrow> lookup (disk st1) (dest @ r @ d # q) =
          merged (lookup (disk st) (src @ r @ d # q)) (lookup (disk st) (dest @ r @ d # q))"
      and fr1: "\<And>p. \<not> strict_prefix (dest @ r @ [d]) p \<Longrightarrow> lookup (disk st1) p = lookup (disk st) p"
      by (simp_all add: mirrored_def)
    have src1: "lookup (disk st1) (src @ a) = lookup (disk st) (src @ a)" for a
      using fr1 [of "src @ a"] separate_not_prefix1 [OF sep, of "r @ [d]" a]
      by (simp add: strict_prefix_def)
    have oth: "lookup (disk st1) (dest @ r @ d' # q) = lookup (disk st) (dest @ r @ d' # q)"
      if "d' \<in> set ds" for d' q
    proof -
      from that nd have "d \<noteq> d'" by auto
      then have "\<not> strict_prefix ((dest @ r) @ [d]) ((dest @ r) @ d' # q)"
        by (rule not_strict_prefix_sibling)
      then show ?thesis using fr1 by simp
    qed
    have cl1: "clash (disk st1) src dest (r @ [d']) = clash (disk st) src dest (r @ [d'])"
      if "d' \<in> set ds" for d'
      by (rule clash_cong) (use src1 oth [OF that] in simp_all)
    have ch1: "changes (disk st1) src dest (r @ [d']) = changes (disk st) src dest (r @ [d'])"
      if "d' \<in> set ds" for d'
      by (rule changes_cong) (use src1 oth [OF that] in simp_all)
    have pre1: "\<forall>d'\<in>set ds. lookup (disk st1) (dest @ r @ [d']) \<noteq> None \<and> depth_le (disk st1) (src @ r @ [d']) k"
    proof
      fix d' assume d': "d' \<in> set ds"
      with Cons.prems(3) have a: "lookup (disk st) (dest @ r @ [d']) \<noteq> None" "depth_le (disk st) (src @ r @ [d']) k"
        by simp_all
      from a(1) oth [OF d', of "[]"] have "lookup (disk st1) (dest @ r @ [d']) \<noteq> None" by simp
      moreover from a(2) have "depth_le (disk st1) (src @ r @ [d']) k"
        unfolding depth_le_def using src1 [of "(r @ [d']) @ _"] by simp
      ultimately show "lookup (disk st1) (dest @ r @ [d']) \<noteq> None \<and> depth_le (disk st1) (src @ r @ [d']) k" ..
    qed
    have step': "\<And>d' st. d' \<in> set ds \<Longrightarrow> wf_fs (disk st) \<Longrightarrow> lookup (disk st) (dest @ r @ [d']) \<noteq> None \<Longrightarrow>
        depth_le (disk st) (src @ r @ [d']) k \<Longrightarrow>
        \<exists>res. f d' st = Some res \<and> good_a st src dest (r @ [d']) res"
      using Cons.prems(4) by simp
    from Cons.IH [OF g(2) dx pre1 step'] obtain res where 2: "for_each f ds st1 = Some res"
      "case res of
          Inl e \<Rightarrow> \<exists>d\<in>set ds. clash (disk st1) src dest (r @ [d])
        | Inr st' \<Rightarrow>
            (\<forall>d\<in>set ds. \<not> clash (disk st1) src dest (r @ [d])) \<and> wf_fs (disk st') \<and>
            (\<forall>d\<in>set ds. \<forall>q. q \<noteq> [] \<longrightarrow> lookup (disk st') (dest @ r @ d # q) =
                merged (lookup (disk st1) (src @ r @ d # q)) (lookup (disk st1) (dest @ r @ d # q))) \<and>
            (\<forall>p. (\<forall>d\<in>set ds. \<not> strict_prefix (dest @ r @ [d]) p) \<longrightarrow> lookup (disk st') p = lookup (disk st1) p) \<and>
            (\<exists>evs. log st' = log st1 @ evs \<and> set evs = (\<Union>d\<in>set ds. changes (disk st1) src dest (r @ [d])))"
      by blast
    from 1(1) Inr 2(1) have fe: "for_each f (d # ds) st = Some res" by simp
    show ?thesis
    proof (cases res)
      case (Inl e)
      with 2(2) cl1 have "\<exists>d'\<in>set (d # ds). clash (disk st) src dest (r @ [d'])" by auto
      with fe Inl show ?thesis by simp
    next
      case (Inr st')
      with 2(2) have h: "\<forall>d\<in>set ds. \<not> clash (disk st1) src dest (r @ [d])" "wf_fs (disk st')"
        "\<forall>d\<in>set ds. \<forall>q. q \<noteq> [] \<longrightarrow> lookup (disk st') (dest @ r @ d # q) =
                merged (lookup (disk st1) (src @ r @ d # q)) (lookup (disk st1) (dest @ r @ d # q))"
        "\<forall>p. (\<forall>d\<in>set ds. \<not> strict_prefix (dest @ r @ [d]) p) \<longrightarrow> lookup (disk st') p = lookup (disk st1) p"
        and "\<exists>evs. log st' = log st1 @ evs \<and> set evs = (\<Union>d\<in>set ds. changes (disk st1) src dest (r @ [d]))"
        by simp_all
      then obtain evs2 where e2: "log st' = log st1 @ evs2"
        "set evs2 = (\<Union>d\<in>set ds. changes (disk st1) src dest (r @ [d]))" by blast
      have a: "\<forall>d'\<in>set (d # ds). \<not> clash (disk st) src dest (r @ [d'])"
        using g(1) h(1) cl1 by simp
      have b: "\<forall>d'\<in>set (d # ds). \<forall>q. q \<noteq> [] \<longrightarrow> lookup (disk st') (dest @ r @ d' # q) =
                merged (lookup (disk st) (src @ r @ d' # q)) (lookup (disk st) (dest @ r @ d' # q))"
      proof (intro ballI allI impI)
        fix d' q assume d': "d' \<in> set (d # ds)" and q: "q \<noteq> ([]::path)"
        show "lookup (disk st') (dest @ r @ d' # q) =
                merged (lookup (disk st) (src @ r @ d' # q)) (lookup (disk st) (dest @ r @ d' # q))"
        proof (cases "d' = d")
          case True
          have "\<forall>e\<in>set ds. \<not> strict_prefix (dest @ r @ [e]) (dest @ r @ d # q)"
          proof
            fix e assume "e \<in> set ds"
            with nd have "e \<noteq> d" by auto
            then have "\<not> strict_prefix ((dest @ r) @ [e]) ((dest @ r) @ d # q)"
              by (rule not_strict_prefix_sibling)
            then show "\<not> strict_prefix (dest @ r @ [e]) (dest @ r @ d # q)" by simp
          qed
          with h(4) have "lookup (disk st') (dest @ r @ d # q) = lookup (disk st1) (dest @ r @ d # q)"
            by blast
          with m1 [OF q] True show ?thesis by simp
        next
          case False
          with d' have "d' \<in> set ds" by simp
          with h(3) q oth [OF this] src1 [of "r @ d' # q"] show ?thesis by simp
        qed
      qed
      have c: "\<forall>p. (\<forall>d'\<in>set (d # ds). \<not> strict_prefix (dest @ r @ [d']) p) \<longrightarrow> lookup (disk st') p = lookup (disk st) p"
        using h(4) fr1 by simp
      have "log st' = log st @ (evs1 @ evs2)" using e1(1) e2(1) by simp
      moreover have "set (evs1 @ evs2) = (\<Union>d'\<in>set (d # ds). changes (disk st) src dest (r @ [d']))"
        using e1(2) e2(2) ch1 by simp
      ultimately have e: "\<exists>evs. log st' = log st @ evs \<and>
          set evs = (\<Union>d'\<in>set (d # ds). changes (disk st) src dest (r @ [d']))" by blast
      from fe Inr a h(2) b c e show ?thesis by simp
    qed
  qed
qed


lemma is_file_merged_Dir [simp]: "is_file (merged (Some Dir) d) = is_file d"
  by (cases d) auto

lemma merged_Dir_exists [simp]: "merged (Some Dir) d \<noteq> None"
  by (cases d) auto

lemma walk_phase_a:
  assumes sep: "separate src dest"
  shows "wf_fs (disk st) \<Longrightarrow> lookup (disk st) (dest @ r) \<noteq> None \<Longrightarrow>
     depth_le (disk st) (src @ r) k \<Longrightarrow> k < n \<Longrightarrow>
     \<exists>res. walk n (phase_a src dest) (src @ r) st = Some res \<and> good_a st src dest r res"
proof (induction n arbitrary: st r k)
  case 0
  then show ?case by simp
next
  case (Suc n)
  note wf = Suc.prems(1) and ex = Suc.prems(2) and dl = Suc.prems(3)
  have below: "lookup (disk st) (src @ r @ d # q) = None"
    if "lookup (disk st) (src @ r @ [d]) \<noteq> Some Dir" "q \<noteq> []" for d q
  proof (rule ccontr)
    assume "lookup (disk st) (src @ r @ d # q) \<noteq> None"
    then have "lookup (disk st) ((src @ r @ [d]) @ q) \<noteq> None" by simp
    from wf_fs_prefix [OF wf this] that show False by simp
  qed
  show ?case
  proof (cases "scandir (disk st) (src @ r)")
    case None
    then have nd: "lookup (disk st) (src @ r) \<noteq> Some Dir" by (simp add: scandir_None)
    have nb: "lookup (disk st) (src @ r @ q) = None" if "q \<noteq> []" for q
    proof (rule ccontr)
      assume "lookup (disk st) (src @ r @ q) \<noteq> None"
      then have "lookup (disk st) ((src @ r) @ q) \<noteq> None" by simp
      from wf_fs_prefix [OF wf this] that nd show False by simp
    qed
    have "\<not> clash (disk st) src dest r"
      unfolding clash_def using nb [of "_ @ [_]"] by simp
    moreover have "mirrored (disk st) src dest r (disk st)"
      unfolding mirrored_def using nb by simp
    moreover have "changes (disk st) src dest r = {}"
      unfolding changes_def using nb by auto
    ultimately have "good_a st src dest r (Inr st)"
      using wf by (simp add: good_a_def)
    with None show ?thesis by simp
  next
    case (Some a)
    then obtain dirs files where sc: "scandir (disk st) (src @ r) = Some (dirs, files)"
      by (cases a) auto
    note s = scandir_Some [OF sc]
    show ?thesis
    proof (cases "is_file (lookup (disk st) (dest @ r))")
      case True
      note pf = phase_a_under_file [OF sep wf sc True]
      show ?thesis
      proof (cases "dirs = [] \<and> files = []")
        case False
        then obtain x where "x \<in> set dirs \<or> x \<in> set files"
          by (cases dirs; cases files) auto
        with s(4,5) have "lookup (disk st) (src @ r @ [x]) \<noteq> None" by auto
        with True have "clash (disk st) src dest r"
          by (subst clash_Cons) blast
        with pf False sc show ?thesis by (simp add: good_a_def)
      next
        case e: True
        have nb1: "lookup (disk st) (src @ r @ [x]) = None" for x
        proof (cases "lookup (disk st) (src @ r @ [x])")
          case (Some b)
          with e s(4,5) show ?thesis by (cases b) auto
        qed simp
        have nb: "lookup (disk st) (src @ r @ q) = None" if "q \<noteq> []" for q
        proof (cases q)
          case (Cons d q')
          show ?thesis
          proof (cases "q' = []")
            case True
            with Cons nb1 show ?thesis by simp
          next
            case False
            with below [of d q'] nb1 [of d] Cons show ?thesis by simp
          qed
        qed (use that in simp)
        have "\<not> clash (disk st) src dest r"
          unfolding clash_def using nb [of "_ @ [_]"] by simp
        moreover have "mirrored (disk st) src dest r (disk st)"
          unfolding mirrored_def using nb by simp
        moreover have "changes (disk st) src dest r = {}"
          unfolding changes_def using nb by auto
        ultimately have "good_a st src dest r (Inr st)"
          using wf by (simp add: good_a_def)
        with pf e sc show ?thesis by simp
      qed
    next
      case nf: False
      with ex have par: "lookup (disk st) (dest @ r) = Some Dir"
        by (cases "lookup (disk st) (dest @ r)"; simp) (metis is_file.simps(1) node.exhaust)
      note pa = phase_a_spec [OF sep wf sc par]
      show ?thesis
      proof (cases "phase_a src dest (src @ r) dirs files st")
        case (Inl e)
        with pa obtain x where "is_file (lookup (disk st) (src @ r @ [x]))"
          "lookup (disk st) (dest @ r @ [x]) = Some Dir" by auto
        moreover from this(1) have "lookup (disk st) (src @ r @ [x]) \<noteq> None" by (auto simp: is_file_iff)
        ultimately have "clash (disk st) src dest r" by (subst clash_Cons) blast
        with Inl sc show ?thesis by (simp add: good_a_def)
      next
        case (Inr st1)
        with pa have b: "\<forall>x. is_file (lookup (disk st) (src @ r @ [x])) \<longrightarrow> lookup (disk st) (dest @ r @ [x]) \<noteq> Some Dir"
          "wf_fs (disk st1)"
          "\<forall>x. lookup (disk st1) (dest @ r @ [x]) =
               merged (lookup (disk st) (src @ r @ [x])) (lookup (disk st) (dest @ r @ [x]))"
          "\<forall>p. (\<forall>x. p \<noteq> dest @ r @ [x]) \<longrightarrow> lookup (disk st1) p = lookup (disk st) p"
          and "\<exists>evs. log st1 = log st @ evs \<and>
           set evs = {e. \<exists>x. change (r @ [x]) (lookup (disk st) (src @ r @ [x]))
                                (lookup (disk st) (dest @ r @ [x])) = Some e}"
          by simp_all
        then obtain evs1 where e1: "log st1 = log st @ evs1"
          "set evs1 = {e. \<exists>x. change (r @ [x]) (lookup (disk st) (src @ r @ [x]))
                                (lookup (disk st) (dest @ r @ [x])) = Some e}" by blast
        have src1: "lookup (disk st1) (src @ a) = lookup (disk st) (src @ a)" for a
          using b(4) separate_neq [OF sep, of a] by simp
        have deep1: "lookup (disk st1) (dest @ r @ d # q) = lookup (disk st) (dest @ r @ d # q)"
          if "q \<noteq> []" for d q
          using b(4) that by simp
        have cl1: "clash (disk st1) src dest (r @ [d]) = clash (disk st) src dest (r @ [d])"
          if "d \<in> set dirs" for d
        proof (rule clash_cong)
          from that s(4) have "lookup (disk st) (src @ r @ [d]) = Some Dir" by simp
          with b(3) show "is_file (lookup (disk st1) (dest @ (r @ [d]))) = is_file (lookup (disk st) (dest @ (r @ [d])))"
            by simp
        qed (use src1 deep1 in simp_all)
        have ch1: "changes (disk st1) src dest (r @ [d]) = changes (disk st) src dest (r @ [d])" for d
          by (rule changes_cong) (use src1 deep1 in simp_all)
        have step: "\<exists>res. walk n (phase_a src dest) ((src @ r) @ [d]) st0 = Some res \<and>
            good_a st0 src dest (r @ [d]) res"
          if "d \<in> set dirs" "wf_fs (disk st0)" "lookup (disk st0) (dest @ r @ [d]) \<noteq> None"
            "depth_le (disk st0) (src @ r @ [d]) (k - 1)" for d st0
        proof -
          from that(1) s(4) have "lookup (disk st) ((src @ r) @ [d]) \<noteq> None" by simp
          from depth_le_child(2) [OF dl this] Suc.prems(4) have "k - 1 < n" by simp
          from Suc.IH [OF that(2) _ _ this, of "r @ [d]"] that(3,4) show ?thesis by simp
        qed
        have pre: "\<forall>d\<in>set dirs. lookup (disk st1) (dest @ r @ [d]) \<noteq> None \<and>
            depth_le (disk st1) (src @ r @ [d]) (k - 1)"
        proof
          fix d assume d: "d \<in> set dirs"
          with s(4) have sd: "lookup (disk st) (src @ r @ [d]) = Some Dir" by simp
          with b(3) have "lookup (disk st1) (dest @ r @ [d]) \<noteq> None" by simp
          moreover from sd have "lookup (disk st) ((src @ r) @ [d]) \<noteq> None" by simp
          from depth_le_child(1) [OF dl this] have "depth_le (disk st1) (src @ r @ [d]) (k - 1)"
            unfolding depth_le_def using src1 [of "(r @ [d]) @ _"] by simp
          ultimately show "lookup (disk st1) (dest @ r @ [d]) \<noteq> None \<and>
            depth_le (disk st1) (src @ r @ [d]) (k - 1)" ..
        qed
        from for_each_merge [where f = "\<lambda>d. walk n (phase_a src dest) ((src @ r) @ [d])",
            OF sep step b(2) s(2) pre]
        obtain res where 2: "for_each (\<lambda>d. walk n (phase_a src dest) ((src @ r) @ [d])) dirs st1 = Some res"
          "case res of
            Inl e \<Rightarrow> \<exists>d\<in>set dirs. clash (disk st1) src dest (r @ [d])
          | Inr st' \<Rightarrow>
            (\<forall>d\<in>set dirs. \<not> clash (disk st1) src dest (r @ [d])) \<and> wf_fs (disk st') \<and>
            (\<forall>d\<in>set dirs. \<forall>q. q \<noteq> [] \<longrightarrow> lookup (disk st') (dest @ r @ d # q) =
                merged (lookup (disk st1) (src @ r @ d # q)) (lookup (disk st1) (dest @ r @ d # q))) \<and>
            (\<forall>p. (\<forall>d\<in>set dirs. \<not> strict_prefix (dest @ r @ [d]) p) \<longrightarrow> lookup (disk st') p = lookup (disk st1) p) \<and>
            (\<exists>evs. log st' = log st1 @ evs \<and> set evs = (\<Union>d\<in>set dirs. changes (disk st1) src dest (r @ [d])))"
          by blast
        have w: "walk (Suc n) (phase_a src dest) (src @ r) st = Some res"
          using sc \<open>phase_a src dest (src @ r) dirs files st = Inr st1\<close> 2(1) by simp
        show ?thesis
        proof (cases res)
          case (Inl e)
          with 2(2) cl1 have "\<exists>d. clash (disk st) src dest (r @ [d])" by auto
          then have "clash (disk st) src dest r" by (subst clash_Cons) blast
          with w Inl show ?thesis by (simp add: good_a_def)
        next
          case (Inr st')
          with 2(2) have h: "\<forall>d\<in>set dirs. \<not> clash (disk st1) src dest (r @ [d])" "wf_fs (disk st')"
            "\<forall>d\<in>set dirs. \<forall>q. q \<noteq> [] \<longrightarrow> lookup (disk st') (dest @ r @ d # q) =
                merged (lookup (disk st1) (src @ r @ d # q)) (lookup (disk st1) (dest @ r @ d # q))"
            "\<forall>p. (\<forall>d\<in>set dirs. \<not> strict_prefix (dest @ r @ [d]) p) \<longrightarrow> lookup (disk st') p = lookup (disk st1) p"
            and "\<exists>evs. log st' = log st1 @ evs \<and> set evs = (\<Union>d\<in>set dirs. changes (disk st1) src dest (r @ [d]))"
            by simp_all
          then obtain evs2 where e2: "log st' = log st1 @ evs2"
            "set evs2 = (\<Union>d\<in>set dirs. changes (disk st1) src dest (r @ [d]))" by blast
          have nc: "\<not> clash (disk st) src dest r"
          proof
            assume "clash (disk st) src dest r"
            then consider x where "lookup (disk st) (src @ r @ [x]) \<noteq> None"
              "is_file (lookup (disk st) (dest @ r)) \<or>
                (is_file (lookup (disk st) (src @ r @ [x])) \<and> lookup (disk st) (dest @ r @ [x]) = Some Dir)"
              | d where "clash (disk st) src dest (r @ [d])"
              by (subst (asm) clash_Cons) blast
            then show False
            proof cases
              case 1
              with nf b(1) show False by blast
            next
              case 2
              from clash_needs_source [OF wf 2] s(4) have "d \<in> set dirs" by simp
              with h(1) cl1 2 show False by simp
            qed
          qed
          have mi: "mirrored (disk st) src dest r (disk st')"
            unfolding mirrored_def
          proof (intro conjI allI impI)
            fix q :: path assume "q \<noteq> []"
            then obtain d q' where q: "q = d # q'" by (cases q) auto
            show "lookup (disk st') (dest @ r @ q) =
                merged (lookup (disk st) (src @ r @ q)) (lookup (disk st) (dest @ r @ q))"
            proof (cases "q' = []")
              case True
              have "\<forall>e\<in>set dirs. \<not> strict_prefix (dest @ r @ [e]) (dest @ r @ [d])"
                by (auto simp: strict_prefix_def)
              with h(4) have "lookup (disk st') (dest @ r @ [d]) = lookup (disk st1) (dest @ r @ [d])"
                by blast
              with b(3) q True show ?thesis by simp
            next
              case ne: False
              show ?thesis
              proof (cases "d \<in> set dirs")
                case True
                with h(3) ne have "lookup (disk st') (dest @ r @ d # q') =
                  merged (lookup (disk st1) (src @ r @ d # q')) (lookup (disk st1) (dest @ r @ d # q'))"
                  by blast
                with src1 [of "r @ d # q'"] deep1 [OF ne, of d] q show ?thesis by simp
              next
                case False
                with s(4) have nsd: "lookup (disk st) (src @ r @ [d]) \<noteq> Some Dir" by simp
                have "\<forall>e\<in>set dirs. \<not> strict_prefix (dest @ r @ [e]) (dest @ r @ d # q')"
                proof
                  fix e assume "e \<in> set dirs"
                  with False have "e \<noteq> d" by auto
                  then have "\<not> strict_prefix ((dest @ r) @ [e]) ((dest @ r) @ d # q')"
                    by (rule not_strict_prefix_sibling)
                  then show "\<not> strict_prefix (dest @ r @ [e]) (dest @ r @ d # q')" by simp
                qed
                with h(4) have "lookup (disk st') (dest @ r @ d # q') = lookup (disk st1) (dest @ r @ d # q')"
                  by blast
                with deep1 [OF ne, of d] below [OF nsd ne] q show ?thesis by simp
              qed
            qed
          next
            fix p assume np: "\<not> strict_prefix (dest @ r) p"
            have "\<forall>e\<in>set dirs. \<not> strict_prefix (dest @ r @ [e]) p"
            proof
              fix e
              show "\<not> strict_prefix (dest @ r @ [e]) p"
              proof
                assume "strict_prefix (dest @ r @ [e]) p"
                then have "strict_prefix (dest @ r) p"
                  by (auto simp: strict_prefix_def prefix_def)
                with np show False by simp
              qed
            qed
            with h(4) have "lookup (disk st') p = lookup (disk st1) p" by blast
            moreover have "\<forall>x. p \<noteq> dest @ r @ [x]"
              using np by (auto simp: strict_prefix_def)
            with b(4) have "lookup (disk st1) p = lookup (disk st) p" by blast
            ultimately show "lookup (disk st') p = lookup (disk st) p" by simp
          qed
          have "(\<Union>d\<in>set dirs. changes (disk st) src dest (r @ [d])) = (\<Union>d. changes (disk st) src dest (r @ [d]))"
          proof (intro set_eqI iffI)
            fix e assume "e \<in> (\<Union>d. changes (disk st) src dest (r @ [d]))"
            then obtain d where d: "e \<in> changes (disk st) src dest (r @ [d])" by blast
            from changes_needs_source [OF wf d] s(4) have "d \<in> set dirs" by simp
            with d show "e \<in> (\<Union>d\<in>set dirs. changes (disk st) src dest (r @ [d]))" by blast
          qed blast
          with e1(2) e2(2) ch1 have "set (evs1 @ evs2) = changes (disk st) src dest r"
            by (simp add: changes_Cons [of "disk st" src dest r])
          moreover have "log st' = log st @ (evs1 @ evs2)" using e1(1) e2(1) by simp
          ultimately have ev: "\<exists>evs. log st' = log st @ evs \<and> set evs = changes (disk st) src dest r"
            by blast
          from w Inr nc h(2) mi ev show ?thesis by (simp add: good_a_def)
        qed
      qed
    qed
  qed
qed

lemma phase_b_spec:
  assumes ind: "indep src dest (disk st)" and wf: "wf_fs (disk st)"
    and sc: "scandir (disk st) (dest @ r) = Some (dirs, files)"
  shows "\<exists>st'. phase_b src dest (dest @ r) dirs files st = Inr st' \<and> wf_fs (disk st') \<and>
           (\<forall>p. lookup (disk st') p =
                  (if \<exists>x. prefix (dest @ r @ [x]) p \<and> lookup (disk st) (src @ r @ [x]) = None
                   then None else lookup (disk st) p)) \<and>
           (\<exists>evs. log st' = log st @ evs \<and> distinct evs \<and>
              set evs = {e. \<exists>x. removal (r @ [x]) (lookup (disk st) (dest @ r @ [x]))
                                   (lookup (disk st) (src @ r @ [x])) = Some e})"
proof -
  note s = scandir_Some [OF sc]
  from s(5) have "\<forall>x\<in>set files. \<exists>t c. lookup (disk st) (dest @ r @ [x]) = Some (File t c)" by simp
  from remove_files_spec [OF ind wf s(3) this]
  obtain st1 where 1: "remove_files src dest (dest @ r) files st = Inr st1" "wf_fs (disk st1)"
    "\<forall>p. lookup (disk st1) p =
                  (if \<exists>x\<in>set files. p = dest @ r @ [x] \<and> lookup (disk st) (src @ r @ [x]) = None
                   then None else lookup (disk st) p)"
    "log st1 = log st @ map (\<lambda>x. RemovedFile (r @ [x]))
                                 (filter (\<lambda>x. lookup (disk st) (src @ r @ [x]) = None) files)"
    by blast
  have src1: "lookup (disk st1) (src @ a) = lookup (disk st) (src @ a)" for a
  proof (rule indep_same [OF ind])
    assume sp: "separate src dest"
    show "lookup (disk st1) (src @ a) = lookup (disk st) (src @ a)"
      using 1(3) separate_neq [OF sp] by auto
  next
    show "lookup (disk st1) (src @ a) = None \<or> lookup (disk st1) (src @ a) = lookup (disk st) (src @ a)"
      using 1(3) by auto
  qed
  have i1: "indep src dest (disk st1)" using ind src1 by (rule indep_step)
  have "\<forall>x\<in>set dirs. lookup (disk st1) (dest @ r @ [x]) = Some Dir"
    using 1(3) s(4,5) by auto
  from remove_dirs_spec [OF i1 1(2) s(2) this]
  obtain st2 where 2: "remove_dirs src dest (dest @ r) dirs st1 = Inr st2" "wf_fs (disk st2)"
    "\<forall>p. lookup (disk st2) p =
                  (if \<exists>x\<in>set dirs. prefix (dest @ r @ [x]) p \<and> lookup (disk st1) (src @ r @ [x]) = None
                   then None else lookup (disk st1) p)"
    "log st2 = log st1 @ map (\<lambda>x. RemovedDirectory (r @ [x]))
                                 (filter (\<lambda>x. lookup (disk st1) (src @ r @ [x]) = None) dirs)"
    by blast
  have r: "phase_b src dest (dest @ r) dirs files st = Inr st2"
    using 1(1) 2(1) by (simp add: phase_b_def)
  define ef where "ef = map (\<lambda>x. RemovedFile (r @ [x]))
                                 (filter (\<lambda>x. lookup (disk st) (src @ r @ [x]) = None) files)"
  define ed where "ed = map (\<lambda>x. RemovedDirectory (r @ [x]))
                                 (filter (\<lambda>x. lookup (disk st) (src @ r @ [x]) = None) dirs)"
  have lg: "log st2 = log st @ (ef @ ed)"
    using 1(4) 2(4) src1 [of "r @ [_]"] by (simp add: ef_def ed_def)
  have "distinct ef" unfolding ef_def using s(3) by (simp add: distinct_map inj_on_def)
  moreover have "distinct ed" unfolding ed_def using s(2) by (simp add: distinct_map inj_on_def)
  moreover have "set ef \<inter> set ed = {}" by (auto simp: ef_def ed_def)
  ultimately have dist: "distinct (ef @ ed)" by simp
  have "set (ef @ ed) = {e. \<exists>x. removal (r @ [x]) (lookup (disk st) (dest @ r @ [x]))
                                   (lookup (disk st) (src @ r @ [x])) = Some e}"
  proof (intro set_eqI iffI)
    fix e assume "e \<in> set (ef @ ed)"
    then consider x where "x \<in> set files" "lookup (disk st) (src @ r @ [x]) = None" "e = RemovedFile (r @ [x])"
      | x where "x \<in> set dirs" "lookup (disk st) (src @ r @ [x]) = None" "e = RemovedDirectory (r @ [x])"
      by (auto simp: ef_def ed_def)
    then show "e \<in> {e. \<exists>x. removal (r @ [x]) (lookup (disk st) (dest @ r @ [x]))
                                   (lookup (disk st) (src @ r @ [x])) = Some e}"
    proof cases
      case 1
      with s(5) obtain t c where "lookup (disk st) (dest @ r @ [x]) = Some (File t c)" by auto
      with 1 have "removal (r @ [x]) (lookup (disk st) (dest @ r @ [x]))
                                   (lookup (disk st) (src @ r @ [x])) = Some e" by simp
      then show ?thesis by blast
    next
      case 2
      with s(4) have "lookup (disk st) (dest @ r @ [x]) = Some Dir" by auto
      with 2 have "removal (r @ [x]) (lookup (disk st) (dest @ r @ [x]))
                                   (lookup (disk st) (src @ r @ [x])) = Some e" by simp
      then show ?thesis by blast
    qed
  next
    fix e assume "e \<in> {e. \<exists>x. removal (r @ [x]) (lookup (disk st) (dest @ r @ [x]))
                                   (lookup (disk st) (src @ r @ [x])) = Some e}"
    then obtain x where x: "removal (r @ [x]) (lookup (disk st) (dest @ r @ [x]))
                                   (lookup (disk st) (src @ r @ [x])) = Some e" by blast
    then show "e \<in> set (ef @ ed)"
      using s(4,5) by (cases "(r @ [x], lookup (disk st) (dest @ r @ [x]), lookup (disk st) (src @ r @ [x]))"
          rule: removal.cases) (auto simp: ef_def ed_def)
  qed
  with lg dist have ev: "\<exists>evs. log st2 = log st @ evs \<and> distinct evs \<and>
              set evs = {e. \<exists>x. removal (r @ [x]) (lookup (disk st) (dest @ r @ [x]))
                                   (lookup (disk st) (src @ r @ [x])) = Some e}" by blast
  have "lookup (disk st2) p =
                  (if \<exists>x. prefix (dest @ r @ [x]) p \<and> lookup (disk st) (src @ r @ [x]) = None
                   then None else lookup (disk st) p)" for p
  proof (cases "\<exists>x. prefix (dest @ r @ [x]) p \<and> lookup (disk st) (src @ r @ [x]) = None")
    case False
    then show ?thesis using 2(3) 1(3) src1 [of "r @ [_]"] by auto
  next
    case True
    then obtain x where x: "prefix (dest @ r @ [x]) p" "lookup (disk st) (src @ r @ [x]) = None"
      by blast
    then obtain z where z: "p = (dest @ r @ [x]) @ z" by (auto simp: prefix_def)
    have "lookup (disk st2) p = None"
    proof (cases "x \<in> set dirs")
      case True
      with x 2(3) src1 [of "r @ [x]"] show ?thesis by auto
    next
      case nd: False
      have "lookup (disk st) p = None \<or> (z = [] \<and> x \<in> set files)"
      proof (rule ccontr)
        assume a: "\<not> (lookup (disk st) p = None \<or> (z = [] \<and> x \<in> set files))"
        then have ne: "lookup (disk st) ((dest @ r @ [x]) @ z) \<noteq> None" using z by simp
        from wf_fs_prefix [OF wf ne] have "z = [] \<or> lookup (disk st) (dest @ r @ [x]) = Some Dir" .
        with nd s(4) have "z = []" by auto
        with ne have "lookup (disk st) (dest @ r @ [x]) \<noteq> None" by simp
        with nd s(4,5) have "x \<in> set files"
          by (cases "lookup (disk st) (dest @ r @ [x])"; auto) (metis node.exhaust)
        with a \<open>z = []\<close> show False by simp
      qed
      then have "lookup (disk st1) p = None"
        using 1(3) x z by auto
      with 2(3) show ?thesis by auto
    qed
    with True show ?thesis by auto
  qed
  with r 2(2) ev show ?thesis by blast
qed

lemma removal_Some:
  assumes "removal p d s = Some e"
  shows "d \<noteq> None" "s = None" "event_path e = p"
  using assms by (cases "(p, d, s)" rule: removal.cases; auto)+

lemma removals_cong:
  assumes "\<And>a. lookup fs' (src @ a) = lookup fs (src @ a)"
    and "\<And>q. q \<noteq> [] \<Longrightarrow> lookup fs' (dest @ r @ q) = lookup fs (dest @ r @ q)"
  shows "removals fs' src dest r = removals fs src dest r"
  unfolding removals_def using assms by auto

lemma removals_path:
  assumes "e \<in> removals fs src dest r"
  shows "\<exists>q. q \<noteq> [] \<and> event_path e = r @ q"
  using assms removal_Some(3) unfolding removals_def by blast

lemma removals_empty:
  assumes "\<And>q. q \<noteq> [] \<Longrightarrow> lookup fs (dest @ r @ q) = None"
  shows "removals fs src dest r = {}"
proof -
  have False if "e \<in> removals fs src dest r" for e
  proof -
    from that obtain q where "q \<noteq> []" "removal (r @ q) (lookup fs (dest @ r @ q)) (lookup fs (src @ r @ q)) = Some e"
      unfolding removals_def by blast
    with removal_Some(1) [OF this(2)] assms show False by simp
  qed
  then show ?thesis by blast
qed

lemma strict_prefix_Cons_iff:
  "strict_prefix p (d # q) \<longleftrightarrow> p = [] \<or> (\<exists>p'. p = d # p' \<and> strict_prefix p' q)"
  by (cases p) auto

lemma removals_Cons:
  "removals fs src dest r =
     {e. \<exists>x. removal (r @ [x]) (lookup fs (dest @ r @ [x])) (lookup fs (src @ r @ [x])) = Some e} \<union>
     (\<Union>d\<in>{d. lookup fs (src @ r @ [d]) \<noteq> None}. removals fs src dest (r @ [d]))"
proof (intro set_eqI iffI)
  fix e assume "e \<in> removals fs src dest r"
  then obtain q where q: "q \<noteq> []"
    "\<forall>q'. q' \<noteq> [] \<and> strict_prefix q' q \<longrightarrow> lookup fs (src @ r @ q') \<noteq> None"
    "removal (r @ q) (lookup fs (dest @ r @ q)) (lookup fs (src @ r @ q)) = Some e"
    unfolding removals_def by blast
  then obtain d q' where c: "q = d # q'" by (cases q) auto
  show "e \<in> {e. \<exists>x. removal (r @ [x]) (lookup fs (dest @ r @ [x])) (lookup fs (src @ r @ [x])) = Some e} \<union>
     (\<Union>d\<in>{d. lookup fs (src @ r @ [d]) \<noteq> None}. removals fs src dest (r @ [d]))"
  proof (cases "q' = []")
    case True
    with q(3) c show ?thesis by auto
  next
    case False
    then have "strict_prefix [d] (d # q')" by (auto simp: strict_prefix_def)
    with q(2) c have sd: "lookup fs (src @ r @ [d]) \<noteq> None" by blast
    have "\<forall>p. p \<noteq> [] \<and> strict_prefix p q' \<longrightarrow> lookup fs (src @ (r @ [d]) @ p) \<noteq> None"
    proof (intro allI impI)
      fix p assume "p \<noteq> [] \<and> strict_prefix p q'"
      then have "d # p \<noteq> [] \<and> strict_prefix (d # p) q" using c by simp
      with q(2) have "lookup fs (src @ r @ d # p) \<noteq> None" by blast
      then show "lookup fs (src @ (r @ [d]) @ p) \<noteq> None" by simp
    qed
    moreover from q(3) c have "removal ((r @ [d]) @ q') (lookup fs (dest @ (r @ [d]) @ q'))
        (lookup fs (src @ (r @ [d]) @ q')) = Some e" by simp
    ultimately have "e \<in> removals fs src dest (r @ [d])"
      unfolding removals_def using False by blast
    with sd show ?thesis by blast
  qed
next
  fix e assume "e \<in> {e. \<exists>x. removal (r @ [x]) (lookup fs (dest @ r @ [x])) (lookup fs (src @ r @ [x])) = Some e} \<union>
     (\<Union>d\<in>{d. lookup fs (src @ r @ [d]) \<noteq> None}. removals fs src dest (r @ [d]))"
  then show "e \<in> removals fs src dest r"
  proof
    assume "e \<in> {e. \<exists>x. removal (r @ [x]) (lookup fs (dest @ r @ [x])) (lookup fs (src @ r @ [x])) = Some e}"
    then obtain x where x: "removal (r @ [x]) (lookup fs (dest @ r @ [x])) (lookup fs (src @ r @ [x])) = Some e"
      by blast
    have "\<forall>q'. q' \<noteq> [] \<and> strict_prefix q' [x] \<longrightarrow> lookup fs (src @ r @ q') \<noteq> None"
      by (auto simp: strict_prefix_Cons_iff)
    with x have "[x] \<noteq> [] \<and> (\<forall>q'. q' \<noteq> [] \<and> strict_prefix q' [x] \<longrightarrow> lookup fs (src @ r @ q') \<noteq> None) \<and>
        removal (r @ [x]) (lookup fs (dest @ r @ [x])) (lookup fs (src @ r @ [x])) = Some e" by simp
    then show ?thesis unfolding removals_def by blast
  next
    assume "e \<in> (\<Union>d\<in>{d. lookup fs (src @ r @ [d]) \<noteq> None}. removals fs src dest (r @ [d]))"
    then obtain d q where d: "lookup fs (src @ r @ [d]) \<noteq> None" and q: "q \<noteq> []"
      "\<forall>q'. q' \<noteq> [] \<and> strict_prefix q' q \<longrightarrow> lookup fs (src @ (r @ [d]) @ q') \<noteq> None"
      "removal ((r @ [d]) @ q) (lookup fs (dest @ (r @ [d]) @ q)) (lookup fs (src @ (r @ [d]) @ q)) = Some e"
      unfolding removals_def by blast
    have "\<forall>p. p \<noteq> [] \<and> strict_prefix p (d # q) \<longrightarrow> lookup fs (src @ r @ p) \<noteq> None"
    proof (intro allI impI)
      fix p assume p: "p \<noteq> [] \<and> strict_prefix p (d # q)"
      then obtain p' where p': "p = d # p'" "strict_prefix p' q"
        by (auto simp: strict_prefix_Cons_iff)
      show "lookup fs (src @ r @ p) \<noteq> None"
      proof (cases "p' = []")
        case True
        with p' d show ?thesis by simp
      next
        case False
        with p' q(2) have "lookup fs (src @ (r @ [d]) @ p') \<noteq> None" by blast
        with p' show ?thesis by simp
      qed
    qed
    moreover from q(3) have "removal (r @ d # q) (lookup fs (dest @ r @ d # q)) (lookup fs (src @ r @ d # q)) = Some e"
      by simp
    ultimately have "d # q \<noteq> [] \<and> (\<forall>p. p \<noteq> [] \<and> strict_prefix p (d # q) \<longrightarrow> lookup fs (src @ r @ p) \<noteq> None) \<and>
        removal (r @ d # q) (lookup fs (dest @ r @ d # q)) (lookup fs (src @ r @ d # q)) = Some e" by simp
    then show ?thesis unfolding removals_def by blast
  qed
qed

lemma for_each_prune:
  assumes step: "\<And>d st. d \<in> set ds \<Longrightarrow> indep src dest (disk st) \<Longrightarrow> wf_fs (disk st) \<Longrightarrow>
        depth_le (disk st) (dest @ r @ [d]) k \<Longrightarrow>
        \<exists>st'. f d st = Some (Inr st') \<and> good_b st src dest (r @ [d]) st'"
  shows "indep src dest (disk st) \<Longrightarrow> wf_fs (disk st) \<Longrightarrow> distinct ds \<Longrightarrow>
     \<forall>d\<in>set ds. depth_le (disk st) (dest @ r @ [d]) k \<Longrightarrow>
     \<exists>st'. for_each f ds st = Some (Inr st') \<and> wf_fs (disk st') \<and>
       (\<forall>p. lookup (disk st') p =
              (if \<exists>d\<in>set ds. pruned (disk st) src dest (r @ [d]) p then None else lookup (disk st) p)) \<and>
       (\<exists>evs. log st' = log st @ evs \<and> distinct evs \<and>
          set evs = (\<Union>d\<in>set ds. removals (disk st) src dest (r @ [d])))"
  using step
proof (induction ds arbitrary: st)
  case Nil
  then show ?case by simp
next
  case (Cons d ds)
  from Cons.prems(3) have dx: "distinct ds" and nd: "d \<notin> set ds" by simp_all
  from Cons.prems(4) have "depth_le (disk st) (dest @ r @ [d]) k" by simp
  from Cons.prems(5) [OF _ Cons.prems(1) Cons.prems(2) this]
  obtain st1 where f1: "f d st = Some (Inr st1)" and g1: "good_b st src dest (r @ [d]) st1"
    by auto
  from g1 have 1: "wf_fs (disk st1)"
    "\<forall>p. lookup (disk st1) p =
           (if pruned (disk st) src dest (r @ [d]) p then None else lookup (disk st) p)"
    and "\<exists>evs. log st1 = log st @ evs \<and> distinct evs \<and> set evs = removals (disk st) src dest (r @ [d])"
    by (simp_all add: good_b_def)
  then obtain evs1 where e1: "log st1 = log st @ evs1" "distinct evs1"
    "set evs1 = removals (disk st) src dest (r @ [d])" by blast
  have src1: "lookup (disk st1) (src @ a) = lookup (disk st) (src @ a)" for a
  proof (rule indep_same [OF Cons.prems(1)])
    assume sp: "separate src dest"
    show "lookup (disk st1) (src @ a) = lookup (disk st) (src @ a)"
      using 1(2) pruned_src [OF sp] by simp
  next
    show "lookup (disk st1) (src @ a) = None \<or> lookup (disk st1) (src @ a) = lookup (disk st) (src @ a)"
      using 1(2) by simp
  qed
  have i1: "indep src dest (disk st1)" using Cons.prems(1) src1 by (rule indep_step)
  have pr1: "pruned (disk st1) src dest r' p = pruned (disk st) src dest r' p" for r' p
    unfolding pruned_def using src1 by simp
  have oth: "lookup (disk st1) (dest @ r @ d' # q) = lookup (disk st) (dest @ r @ d' # q)"
    if "d' \<in> set ds" for d' q
  proof -
    from that nd have "d \<noteq> d'" by auto
    then have "\<not> strict_prefix ((dest @ r) @ [d]) ((dest @ r) @ d' # q)"
      by (rule not_strict_prefix_sibling)
    then have "\<not> pruned (disk st) src dest (r @ [d]) (dest @ r @ d' # q)"
      using pruned_inside [of "disk st" src dest "r @ [d]" "dest @ r @ d' # q"] by auto
    with 1(2) show ?thesis by simp
  qed
  have rm1: "removals (disk st1) src dest (r @ [d']) = removals (disk st) src dest (r @ [d'])"
    if "d' \<in> set ds" for d'
    by (rule removals_cong) (use src1 oth [OF that] in simp_all)
  have "\<forall>d\<in>set ds. depth_le (disk st1) (dest @ r @ [d]) k"
  proof
    fix e assume "e \<in> set ds"
    with Cons.prems(4) have "depth_le (disk st) (dest @ r @ [e]) k" by simp
    then show "depth_le (disk st1) (dest @ r @ [e]) k"
      by (rule depth_le_antimono) (use 1(2) in auto)
  qed
  from Cons.IH [OF i1 1(1) dx this] Cons.prems(5)
  obtain st' where 2: "for_each f ds st1 = Some (Inr st')" "wf_fs (disk st')"
    "\<forall>p. lookup (disk st') p =
              (if \<exists>d\<in>set ds. pruned (disk st1) src dest (r @ [d]) p then None else lookup (disk st1) p)"
    and "\<exists>evs. log st' = log st1 @ evs \<and> distinct evs \<and>
          set evs = (\<Union>d\<in>set ds. removals (disk st1) src dest (r @ [d]))"
    by auto
  then obtain evs2 where e2: "log st' = log st1 @ evs2" "distinct evs2"
    "set evs2 = (\<Union>d\<in>set ds. removals (disk st1) src dest (r @ [d]))" by blast
  from f1 2(1) have "for_each f (d # ds) st = Some (Inr st')" by simp
  moreover have "\<forall>p. lookup (disk st') p =
              (if \<exists>e\<in>set (d # ds). pruned (disk st) src dest (r @ [e]) p then None else lookup (disk st) p)"
    using 2(3) 1(2) pr1 by auto
  moreover have "log st' = log st @ (evs1 @ evs2)" using e1(1) e2(1) by simp
  moreover have "set evs1 \<inter> set evs2 = {}"
  proof (rule ccontr)
    assume "set evs1 \<inter> set evs2 \<noteq> {}"
    then obtain e d' where e: "e \<in> removals (disk st) src dest (r @ [d])" "d' \<in> set ds"
      "e \<in> removals (disk st1) src dest (r @ [d'])"
      using e1(3) e2(3) by auto
    from removals_path [OF e(1)] removals_path [OF e(3)]
    obtain q q' where "event_path e = (r @ [d]) @ q" "event_path e = (r @ [d']) @ q'" by auto
    then have "d = d'" by simp
    with e(2) nd show False by simp
  qed
  with e1(2) e2(2) have "distinct (evs1 @ evs2)" by simp
  moreover have "set (evs1 @ evs2) = (\<Union>e\<in>set (d # ds). removals (disk st) src dest (r @ [e]))"
    using e1(3) e2(3) rm1 by simp
  ultimately show ?case using 2(2) by blast
qed

lemma walk_phase_b:
  shows "indep src dest (disk st) \<Longrightarrow> wf_fs (disk st) \<Longrightarrow> depth_le (disk st) (dest @ r) k \<Longrightarrow> k < n \<Longrightarrow>
     \<exists>st'. walk n (phase_b src dest) (dest @ r) st = Some (Inr st') \<and> good_b st src dest r st'"
proof (induction n arbitrary: st r k)
  case 0
  then show ?case by simp
next
  case (Suc n)
  note ind = Suc.prems(1) and wf = Suc.prems(2)
  show ?case
  proof (cases "scandir (disk st) (dest @ r)")
    case None
    then have nd: "lookup (disk st) (dest @ r) \<noteq> Some Dir" by (simp add: scandir_None)
    have "lookup (disk st) p = None" if "pruned (disk st) src dest r p" for p
    proof (rule ccontr)
      assume a: "lookup (disk st) p \<noteq> None"
      from that obtain z where z: "p = (dest @ r) @ z" "z \<noteq> []"
        by (auto simp: pruned_def prefix_def)
      with a wf_fs_prefix [OF wf, of "dest @ r" z] nd show False by auto
    qed
    moreover have "removals (disk st) src dest r = {}"
    proof (rule removals_empty)
      fix q :: path assume "q \<noteq> []"
      show "lookup (disk st) (dest @ r @ q) = None"
      proof (rule ccontr)
        assume "lookup (disk st) (dest @ r @ q) \<noteq> None"
        then have "lookup (disk st) ((dest @ r) @ q) \<noteq> None" by simp
        from wf_fs_prefix [OF wf this] \<open>q \<noteq> []\<close> nd show False by simp
      qed
    qed
    ultimately have "good_b st src dest r st" using wf by (auto simp: good_b_def)
    with None show ?thesis by simp
  next
    case (Some a)
    then obtain dirs files where sc: "scandir (disk st) (dest @ r) = Some (dirs, files)"
      by (cases a) auto
    note s = scandir_Some [OF sc]
    from phase_b_spec [OF ind wf sc]
    obtain st1 where 1: "phase_b src dest (dest @ r) dirs files st = Inr st1" "wf_fs (disk st1)"
      "\<forall>p. lookup (disk st1) p =
                  (if \<exists>x. prefix (dest @ r @ [x]) p \<and> lookup (disk st) (src @ r @ [x]) = None
                   then None else lookup (disk st) p)"
      and "\<exists>evs. log st1 = log st @ evs \<and> distinct evs \<and>
              set evs = {e. \<exists>x. removal (r @ [x]) (lookup (disk st) (dest @ r @ [x]))
                                   (lookup (disk st) (src @ r @ [x])) = Some e}"
      by blast
    then obtain evs1 where e1: "log st1 = log st @ evs1" "distinct evs1"
      "set evs1 = {e. \<exists>x. removal (r @ [x]) (lookup (disk st) (dest @ r @ [x]))
                                   (lookup (disk st) (src @ r @ [x])) = Some e}"
      by blast
    have src1: "lookup (disk st1) (src @ a) = lookup (disk st) (src @ a)" for a
    proof (rule indep_same [OF ind])
      assume sp: "separate src dest"
      show "lookup (disk st1) (src @ a) = lookup (disk st) (src @ a)"
        using 1(3) separate_not_prefix1 [OF sp] by auto
    next
      show "lookup (disk st1) (src @ a) = None \<or> lookup (disk st1) (src @ a) = lookup (disk st) (src @ a)"
        using 1(3) by auto
    qed
    have i1: "indep src dest (disk st1)" using ind src1 by (rule indep_step)
    have pr1: "pruned (disk st1) src dest r' p = pruned (disk st) src dest r' p" for r' p
      unfolding pruned_def using src1 by simp
    have step: "\<exists>st'. walk n (phase_b src dest) ((dest @ r) @ [d]) st0 = Some (Inr st') \<and>
          good_b st0 src dest (r @ [d]) st'"
      if "d \<in> set dirs" "indep src dest (disk st0)" "wf_fs (disk st0)"
        "depth_le (disk st0) (dest @ r @ [d]) (k - 1)" for d st0
    proof -
      from that(1) s(4) have "lookup (disk st) ((dest @ r) @ [d]) \<noteq> None" by simp
      from depth_le_child(2) [OF Suc.prems(3) this] Suc.prems(4) have "k - 1 < n" by simp
      from Suc.IH [OF that(2) that(3) _ this, of "r @ [d]"] that(4) show ?thesis by simp
    qed
    have dl: "\<forall>d\<in>set dirs. depth_le (disk st1) (dest @ r @ [d]) (k - 1)"
    proof
      fix d assume "d \<in> set dirs"
      with s(4) have "lookup (disk st) ((dest @ r) @ [d]) \<noteq> None" by simp
      from depth_le_child(1) [OF Suc.prems(3) this]
      have "depth_le (disk st) (dest @ r @ [d]) (k - 1)" by simp
      then show "depth_le (disk st1) (dest @ r @ [d]) (k - 1)"
        by (rule depth_le_antimono) (use 1(3) in auto)
    qed
    from for_each_prune [where f = "\<lambda>d. walk n (phase_b src dest) ((dest @ r) @ [d])", OF step i1 1(2) s(2) dl]
    obtain st' where 2: "for_each (\<lambda>d. walk n (phase_b src dest) ((dest @ r) @ [d])) dirs st1 = Some (Inr st')"
      "wf_fs (disk st')"
      "\<forall>p. lookup (disk st') p =
              (if \<exists>d\<in>set dirs. pruned (disk st1) src dest (r @ [d]) p then None else lookup (disk st1) p)"
      and "\<exists>evs. log st' = log st1 @ evs \<and> distinct evs \<and>
          set evs = (\<Union>d\<in>set dirs. removals (disk st1) src dest (r @ [d]))"
      by blast
    then obtain evs2 where e2: "log st' = log st1 @ evs2" "distinct evs2"
      "set evs2 = (\<Union>d\<in>set dirs. removals (disk st1) src dest (r @ [d]))" by blast
    have deep1: "lookup (disk st1) (dest @ r @ d # q) = lookup (disk st) (dest @ r @ d # q)"
      if "lookup (disk st) (src @ r @ [d]) \<noteq> None" for d q
    proof -
      have n: "\<not> (\<exists>x. prefix (dest @ r @ [x]) (dest @ r @ d # q) \<and> lookup (disk st) (src @ r @ [x]) = None)"
        using that by auto
      from 1(3) have "lookup (disk st1) (dest @ r @ d # q) =
          (if \<exists>x. prefix (dest @ r @ [x]) (dest @ r @ d # q) \<and> lookup (disk st) (src @ r @ [x]) = None
           then None else lookup (disk st) (dest @ r @ d # q))" by (rule spec)
      then show ?thesis by (simp only: n if_False)
    qed
    have gone1: "lookup (disk st1) (dest @ r @ d # q) = None"
      if "lookup (disk st) (src @ r @ [d]) = None" for d q
    proof -
      have y: "\<exists>x. prefix (dest @ r @ [x]) (dest @ r @ d # q) \<and> lookup (disk st) (src @ r @ [x]) = None"
        using that by (intro exI [of _ d]) simp
      from 1(3) have "lookup (disk st1) (dest @ r @ d # q) =
          (if \<exists>x. prefix (dest @ r @ [x]) (dest @ r @ d # q) \<and> lookup (disk st) (src @ r @ [x]) = None
           then None else lookup (disk st) (dest @ r @ d # q))" by (rule spec)
      then show ?thesis by (simp only: y if_True)
    qed
    have rm1: "removals (disk st1) src dest (r @ [d]) =
        (if lookup (disk st) (src @ r @ [d]) \<noteq> None then removals (disk st) src dest (r @ [d]) else {})" for d
    proof (cases "lookup (disk st) (src @ r @ [d]) = None")
      case True
      have "removals (disk st1) src dest (r @ [d]) = {}"
        by (rule removals_empty) (use gone1 [OF True] in simp)
      with True show ?thesis by simp
    next
      case False
      have "removals (disk st1) src dest (r @ [d]) = removals (disk st) src dest (r @ [d])"
        by (rule removals_cong) (use src1 deep1 [OF False] in simp_all)
      with False show ?thesis by simp
    qed
    have rm0: "removals (disk st) src dest (r @ [d]) = {}" if "d \<notin> set dirs" for d
    proof (rule removals_empty)
      fix q :: path assume q: "q \<noteq> []"
      show "lookup (disk st) (dest @ (r @ [d]) @ q) = None"
      proof (rule ccontr)
        assume "lookup (disk st) (dest @ (r @ [d]) @ q) \<noteq> None"
        then have "lookup (disk st) ((dest @ r @ [d]) @ q) \<noteq> None" by simp
        from wf_fs_prefix [OF wf this] q that s(4) show False by simp
      qed
    qed
    have "(\<Union>d\<in>set dirs. removals (disk st1) src dest (r @ [d])) =
        (\<Union>d\<in>{d. lookup (disk st) (src @ r @ [d]) \<noteq> None}. removals (disk st) src dest (r @ [d]))"
    proof (intro set_eqI iffI)
      fix e assume "e \<in> (\<Union>d\<in>set dirs. removals (disk st1) src dest (r @ [d]))"
      then obtain d where "d \<in> set dirs" "e \<in> removals (disk st1) src dest (r @ [d])" by blast
      with rm1 [of d] show "e \<in> (\<Union>d\<in>{d. lookup (disk st) (src @ r @ [d]) \<noteq> None}. removals (disk st) src dest (r @ [d]))"
        by (cases "lookup (disk st) (src @ r @ [d]) = None") auto
    next
      fix e assume "e \<in> (\<Union>d\<in>{d. lookup (disk st) (src @ r @ [d]) \<noteq> None}. removals (disk st) src dest (r @ [d]))"
      then obtain d where d: "lookup (disk st) (src @ r @ [d]) \<noteq> None" "e \<in> removals (disk st) src dest (r @ [d])"
        by blast
      with rm0 [of d] have "d \<in> set dirs" by auto
      with d rm1 [of d] show "e \<in> (\<Union>d\<in>set dirs. removals (disk st1) src dest (r @ [d]))" by auto
    qed
    with e1(3) e2(3) have se: "set (evs1 @ evs2) = removals (disk st) src dest r"
      by (simp add: removals_Cons [of "disk st" src dest r])
    have "set evs1 \<inter> set evs2 = {}"
    proof (rule ccontr)
      assume "set evs1 \<inter> set evs2 \<noteq> {}"
      then obtain e x d where e: "removal (r @ [x]) (lookup (disk st) (dest @ r @ [x]))
                                   (lookup (disk st) (src @ r @ [x])) = Some e"
        "e \<in> removals (disk st1) src dest (r @ [d])"
        using e1(3) e2(3) by auto
      from removal_Some(3) [OF e(1)] removals_path [OF e(2)]
      obtain q where "q \<noteq> []" "r @ [x] = (r @ [d]) @ q" by auto
      then show False by simp
    qed
    with e1(2) e2(2) have de: "distinct (evs1 @ evs2)" by simp
    have lg: "log st' = log st @ (evs1 @ evs2)" using e1(1) e2(1) by simp
    from lg de se have ev: "\<exists>evs. log st' = log st @ evs \<and> distinct evs \<and>
        set evs = removals (disk st) src dest r" by blast
    have w: "walk (Suc n) (phase_b src dest) (dest @ r) st = Some (Inr st')"
      using sc 1(1) 2(1) by simp
    have "lookup (disk st') p = (if pruned (disk st) src dest r p then None else lookup (disk st) p)" for p
    proof (cases "pruned (disk st) src dest r p")
      case False
      have a: "\<not> (\<exists>x. prefix (dest @ r @ [x]) p \<and> lookup (disk st) (src @ r @ [x]) = None)"
        using False pruned_Cons [of "disk st" src dest r p] by blast
      have b: "\<not> (\<exists>d\<in>set dirs. pruned (disk st) src dest (r @ [d]) p)"
      proof
        assume "\<exists>d\<in>set dirs. pruned (disk st) src dest (r @ [d]) p"
        then obtain d where d: "pruned (disk st) src dest (r @ [d]) p" by blast
        from pruned_inside [OF d] have "prefix (dest @ r @ [d]) p" by (simp add: strict_prefix_def)
        with d False pruned_Cons [of "disk st" src dest r p] show False by blast
      qed
      from 1(3) have "lookup (disk st1) p =
                  (if \<exists>x. prefix (dest @ r @ [x]) p \<and> lookup (disk st) (src @ r @ [x]) = None
                   then None else lookup (disk st) p)" by (rule spec)
      then have "lookup (disk st1) p = lookup (disk st) p" by (simp only: a if_False)
      moreover from 2(3) have "lookup (disk st') p =
              (if \<exists>d\<in>set dirs. pruned (disk st) src dest (r @ [d]) p then None else lookup (disk st1) p)"
        unfolding pr1 by (rule spec)
      then have "lookup (disk st') p = lookup (disk st1) p" by (simp only: b if_False)
      ultimately show ?thesis using False by simp
    next
      case True
      then obtain x where x: "prefix (dest @ r @ [x]) p"
        "lookup (disk st) (src @ r @ [x]) = None \<or> pruned (disk st) src dest (r @ [x]) p"
        using pruned_Cons [of "disk st" src dest r p] by blast
      have "lookup (disk st') p = None"
      proof (cases "lookup (disk st) (src @ r @ [x]) = None")
        case True
        with x(1) 1(3) have "lookup (disk st1) p = None" by auto
        with 2(3) show ?thesis by auto
      next
        case False
        with x(2) have px: "pruned (disk st) src dest (r @ [x]) p" by simp
        show ?thesis
        proof (cases "x \<in> set dirs")
          case True
          with px pr1 2(3) show ?thesis by auto
        next
          case nd: False
          from pruned_inside [OF px] obtain z where z: "p = (dest @ r @ [x]) @ z" "z \<noteq> []"
            by (auto simp: strict_prefix_def prefix_def)
          have "lookup (disk st) p = None"
          proof (rule ccontr)
            assume "lookup (disk st) p \<noteq> None"
            with z wf_fs_prefix [OF wf, of "dest @ r @ [x]" z]
            have "lookup (disk st) (dest @ r @ [x]) = Some Dir" by auto
            with nd s(4) show False by simp
          qed
          with 1(3) have "lookup (disk st1) p = None" by auto
          with 2(3) show ?thesis by auto
        qed
      qed
      with True show ?thesis by simp
    qed
    with w 2(2) ev show ?thesis by (simp add: good_b_def)
  qed
qed

lemma separate_indep: "separate src dest \<Longrightarrow> indep src dest fs"
  by (simp add: indep_def)

lemma mirrored_src:
  assumes "separate src dest" "mirrored fs src dest r fs'"
  shows "lookup fs' (src @ a) = lookup fs (src @ a)"
proof -
  from separate_not_prefix1 [OF assms(1), of r a] have "\<not> strict_prefix (dest @ r) (src @ a)"
    by (simp add: strict_prefix_def)
  with assms(2) show ?thesis by (simp add: mirrored_def)
qed

text \<open>Every pass on separate roots with an existing destination returns.\<close>

lemma sync_returns:
  assumes sep: "separate src dest" and wf: "wf_fs (disk st)"
    and ex: "lookup (disk st) dest \<noteq> None"
  shows "\<exists>n res. sync n src dest st = Some res \<and>
           (case res of
              Inl e \<Rightarrow> clash (disk st) src dest []
            | Inr st' \<Rightarrow> \<exists>stA. good_a st src dest [] (Inr stA) \<and> good_b stA src dest [] st')"
proof -
  obtain k1 where k1: "depth_le (disk st) (src @ []) k1" using depth_le_exists by blast
  from walk_phase_a [OF sep, of st "[]" k1 "Suc k1"] wf ex k1
  obtain res1 where 1: "walk (Suc k1) (phase_a src dest) src st = Some res1" "good_a st src dest [] res1"
    by auto
  show ?thesis
  proof (cases res1)
    case (Inl e)
    with 1 have "sync (Suc k1) src dest st = Some (Inl e)" "clash (disk st) src dest []"
      by (simp_all add: sync_def good_a_def)
    then show ?thesis by (intro exI [of _ "Suc k1"] exI [of _ "Inl e"]) simp
  next
    case (Inr stA)
    with 1(2) have wA: "wf_fs (disk stA)" by (simp add: good_a_def)
    obtain k2 where k2: "depth_le (disk stA) (dest @ []) k2" using depth_le_exists by blast
    from walk_phase_b [OF separate_indep [OF sep] wA k2, of "Suc k2"]
    obtain st' where 2: "walk (Suc k2) (phase_b src dest) dest stA = Some (Inr st')" "good_b stA src dest [] st'"
      by auto
    define n where "n = max (Suc k1) (Suc k2)"
    from walk_mono [OF 1(1), of n] Inr have a: "walk n (phase_a src dest) src st = Some (Inr stA)"
      by (simp add: n_def)
    from walk_mono [OF 2(1), of n] have b: "walk n (phase_b src dest) dest stA = Some (Inr st')"
      by (simp add: n_def)
    from a b have "sync n src dest st = Some (Inr st')" by (simp add: sync_def)
    with 1(2) Inr 2(2) show ?thesis by (intro exI [of _ n] exI [of _ "Inr st'"]) auto
  qed
qed

lemma sync_unique:
  assumes "sync n src dest st = Some r" "sync m src dest st = Some r'"
  shows "r = r'"
proof -
  from sync_mono [OF assms(1), of "max n m"] sync_mono [OF assms(2), of "max n m"]
  show ?thesis by simp
qed

lemma removal_Some_source [simp]: "removal p d (Some s) = None"
  by (cases "(p, d, Some s)" rule: removal.cases) auto

lemma merged_None [simp]: "merged s None = s"
  by (cases s) auto

lemma sync_result:
  assumes sep: "separate src dest" and wf: "wf_fs (disk st)"
    and ex: "lookup (disk st) dest \<noteq> None"
    and run: "sync n src dest st = Some (Inr st')"
  shows "\<not> clash (disk st) src dest []"
    and "wf_fs (disk st')"
    and "\<And>a. lookup (disk st') (src @ a) = lookup (disk st) (src @ a)"
    and "\<And>q. q \<noteq> [] \<Longrightarrow> lookup (disk st') (dest @ q) =
           (if lookup (disk st) (src @ q) = None then None
            else merged (lookup (disk st) (src @ q)) (lookup (disk st) (dest @ q)))"
    and "\<And>p. \<not> strict_prefix dest p \<Longrightarrow> lookup (disk st') p = lookup (disk st) p"
    and "\<exists>evsA evsB. log st' = log st @ evsA @ evsB \<and> set evsA = changes (disk st) src dest [] \<and>
           distinct evsB \<and> set evsB = removals (disk st) src dest []"
proof -
  from sync_returns [OF sep wf ex] obtain n0 res0 where r0: "sync n0 src dest st = Some res0"
    "case res0 of
              Inl e \<Rightarrow> clash (disk st) src dest []
            | Inr st' \<Rightarrow> \<exists>stA. good_a st src dest [] (Inr stA) \<and> good_b stA src dest [] st'"
    by blast
  from sync_unique [OF r0(1) run] have "res0 = Inr st'" .
  with r0(2) obtain stA where gA: "good_a st src dest [] (Inr stA)" and gB: "good_b stA src dest [] st'"
    by auto
  from gA have a: "\<not> clash (disk st) src dest []" "wf_fs (disk stA)" "mirrored (disk st) src dest [] (disk stA)"
    and "\<exists>evs. log stA = log st @ evs \<and> set evs = changes (disk st) src dest []"
    by (simp_all add: good_a_def)
  then obtain evsA where eA: "log stA = log st @ evsA" "set evsA = changes (disk st) src dest []"
    by blast
  from gB have b: "wf_fs (disk st')"
    "\<forall>p. lookup (disk st') p = (if pruned (disk stA) src dest [] p then None else lookup (disk stA) p)"
    and "\<exists>evs. log st' = log stA @ evs \<and> distinct evs \<and> set evs = removals (disk stA) src dest []"
    by (simp_all add: good_b_def)
  then obtain evsB where eB: "log st' = log stA @ evsB" "distinct evsB"
    "set evsB = removals (disk stA) src dest []" by blast
  from a(3) have mA: "\<And>q. q \<noteq> [] \<Longrightarrow> lookup (disk stA) (dest @ q) =
        merged (lookup (disk st) (src @ q)) (lookup (disk st) (dest @ q))"
    and fA: "\<And>p. \<not> strict_prefix dest p \<Longrightarrow> lookup (disk stA) p = lookup (disk st) p"
    by (simp_all add: mirrored_def)
  have srcA: "lookup (disk stA) (src @ a) = lookup (disk st) (src @ a)" for a
    using mirrored_src [OF sep a(3)] .
  have srcB: "lookup (disk st') (src @ a) = lookup (disk stA) (src @ a)" for a
    using b(2) pruned_src [OF sep] by simp
  have pr: "pruned (disk stA) src dest [] (dest @ q) \<longleftrightarrow> lookup (disk st) (src @ q) = None"
    if "q \<noteq> []" for q
  proof
    assume "pruned (disk stA) src dest [] (dest @ q)"
    then obtain q' where q': "prefix (dest @ q') (dest @ q)" "lookup (disk stA) (src @ q') = None"
      by (auto simp: pruned_def)
    then obtain z where "q = q' @ z" by (auto simp: prefix_def)
    moreover from q'(2) srcA have "lookup (disk st) (src @ q') = None" by simp
    ultimately show "lookup (disk st) (src @ q) = None"
      using wf_fs_missing [OF wf, of "src @ q'" z] by simp
  next
    assume "lookup (disk st) (src @ q) = None"
    with srcA that show "pruned (disk stA) src dest [] (dest @ q)"
      unfolding pruned_def by (intro exI [of _ q]) simp
  qed
  show "\<not> clash (disk st) src dest []" by (rule a(1))
  show "wf_fs (disk st')" by (rule b(1))
  show "lookup (disk st') (src @ a) = lookup (disk st) (src @ a)" for a
    using srcA srcB by simp
  show "lookup (disk st') (dest @ q) =
           (if lookup (disk st) (src @ q) = None then None
            else merged (lookup (disk st) (src @ q)) (lookup (disk st) (dest @ q)))"
    if "q \<noteq> []" for q
    using b(2) pr [OF that] mA [OF that] by simp
  show "lookup (disk st') p = lookup (disk st) p" if "\<not> strict_prefix dest p" for p
  proof -
    from that pruned_inside [of "disk stA" src dest "[]" p] have "\<not> pruned (disk stA) src dest [] p"
      by auto
    with b(2) fA [OF that] show ?thesis by simp
  qed
  have "removals (disk stA) src dest [] = removals (disk st) src dest []"
  proof -
    have "removal q (lookup (disk stA) (dest @ q)) (lookup (disk st) (src @ q)) =
          removal q (lookup (disk st) (dest @ q)) (lookup (disk st) (src @ q))" if "q \<noteq> []" for q
    proof (cases "lookup (disk st) (src @ q)")
      case None
      with mA [OF that] show ?thesis by simp
    next
      case (Some s)
      then show ?thesis by simp
    qed
    then show ?thesis unfolding removals_def using srcA by auto
  qed
  with eA eB have "log st' = log st @ evsA @ evsB \<and> set evsA = changes (disk st) src dest [] \<and>
           distinct evsB \<and> set evsB = removals (disk st) src dest []" by simp
  then show "\<exists>evsA evsB. log st' = log st @ evsA @ evsB \<and> set evsA = changes (disk st) src dest [] \<and>
           distinct evsB \<and> set evsB = removals (disk st) src dest []" by blast
qed

lemma sync_error:
  assumes sep: "separate src dest" and wf: "wf_fs (disk st)"
    and ex: "lookup (disk st) dest \<noteq> None"
    and run: "sync n src dest st = Some (Inl e)"
  shows "clash (disk st) src dest []"
proof -
  from sync_returns [OF sep wf ex] obtain n0 res0 where r0: "sync n0 src dest st = Some res0"
    "case res0 of
              Inl e \<Rightarrow> clash (disk st) src dest []
            | Inr st' \<Rightarrow> \<exists>stA. good_a st src dest [] (Inr stA) \<and> good_b stA src dest [] st'"
    by blast
  from sync_unique [OF r0(1) run] have "res0 = Inl e" .
  with r0(2) show ?thesis by simp
qed

lemma sync_no_clash:
  assumes sep: "separate src dest" and wf: "wf_fs (disk st)"
    and ex: "lookup (disk st) dest \<noteq> None"
    and nc: "\<not> clash (disk st) src dest []"
  shows "\<exists>n st'. \<forall>m\<ge>n. sync m src dest st = Some (Inr st')"
proof -
  from sync_returns [OF sep wf ex] obtain n0 res0 where r0: "sync n0 src dest st = Some res0"
    "case res0 of
              Inl e \<Rightarrow> clash (disk st) src dest []
            | Inr st' \<Rightarrow> \<exists>stA. good_a st src dest [] (Inr stA) \<and> good_b stA src dest [] st'"
    by blast
  with nc obtain st' where "res0 = Inr st'" by (cases res0) auto
  with r0(1) sync_mono have "\<forall>m\<ge>n0. sync m src dest st = Some (Inr st')" by blast
  then show ?thesis by blast
qed


lemma change_merged [simp]: "change p s (merged s d) = None"
proof (cases s)
  case None
  then show ?thesis by simp
next
  case (Some a)
  show ?thesis
  proof (cases d)
    case None
    with Some show ?thesis by (cases a) auto
  next
    case (Some b)
    with \<open>s = Some a\<close> show ?thesis by (cases a; cases b) auto
  qed
qed


lemma walk_unique:
  assumes "walk n body t st = Some r" "walk m body t st = Some r'"
  shows "r = r'"
proof -
  from walk_mono [OF assms(1), of "max n m"] walk_mono [OF assms(2), of "max n m"]
  show ?thesis by simp
qed


lemma walk_phase_b_result:
  assumes ind: "indep src dest (disk st)" and wf: "wf_fs (disk st)"
    and run: "walk n (phase_b src dest) (dest @ r) st = Some res"
  shows "\<exists>st'. res = Inr st' \<and> good_b st src dest r st'"
proof -
  obtain k where k: "depth_le (disk st) (dest @ r) k" using depth_le_exists by blast
  from walk_phase_b [OF ind wf k, of "Suc k"]
  obtain st' where 0: "walk (Suc k) (phase_b src dest) (dest @ r) st = Some (Inr st')" "good_b st src dest r st'"
    by auto
  from walk_unique [OF 0(1) run] 0(2) show ?thesis by auto
qed





lemma merged_Some_exists [simp]: "merged (Some s) d \<noteq> None"
proof (cases d)
  case None
  then show ?thesis by simp
next
  case (Some b)
  then show ?thesis by (cases s; cases b) auto
qed

lemma wf_fs_ancestors:
  assumes "wf_fs fs" "lookup fs p \<noteq> None" "strict_prefix q p"
  shows "lookup fs q = Some Dir"
proof -
  from assms(3) obtain z where z: "p = q @ z" "z \<noteq> []" by (auto simp: strict_prefix_def prefix_def)
  with assms(2) wf_fs_prefix [OF assms(1), of q z] show ?thesis by simp
qed

lemma prefix_butlast: "prefix q p \<Longrightarrow> q \<noteq> p \<Longrightarrow> prefix q (butlast p)"
  by (metis prefix_order.less_le strict_prefix_def prefix_snoc append_butlast_last_id prefix_Nil prefix_bot.extremum_uniqueI)

lemma makedirs_result:
  "wf_fs fs \<Longrightarrow> makedirs fs p = Inr fs' \<Longrightarrow>
     wf_fs fs' \<and> (\<forall>q. prefix q p \<longrightarrow> lookup fs' q = Some Dir) \<and>
     (\<forall>q. \<not> prefix q p \<longrightarrow> lookup fs' q = lookup fs q) \<and>
     (\<forall>q. lookup fs q \<noteq> None \<longrightarrow> lookup fs' q = lookup fs q)"
proof (induction fs p arbitrary: fs' rule: makedirs.induct)
  case (1 fs p)
  note wf = "1.prems"(1) and res = "1.prems"(2)
  let ?head = "butlast p"
  let ?cond = "p \<noteq> [] \<and> ?head \<noteq> [] \<and> \<not> path_exists fs ?head"
  have final: "wf_fs fs' \<and> (\<forall>q. prefix q p \<longrightarrow> lookup fs' q = Some Dir) \<and>
     (\<forall>q. \<not> prefix q p \<longrightarrow> lookup fs' q = lookup fs1 q) \<and>
     (\<forall>q. lookup fs1 q \<noteq> None \<longrightarrow> lookup fs' q = lookup fs1 q)"
    if w1: "wf_fs fs1"
      and m: "(case mkdir fs1 p of
             Inl e \<Rightarrow> if lookup fs1 p = Some Dir then Inr fs1 else Inl e
           | Inr fs2 \<Rightarrow> Inr fs2) = Inr fs'"
      and anc: "lookup fs1 ?head = Some Dir \<longrightarrow> (\<forall>q. prefix q ?head \<longrightarrow> lookup fs1 q = Some Dir)"
    for fs1
  proof (cases "lookup fs1 p")
    case (Some a)
    with m have eq: "fs' = fs1" and d: "lookup fs1 p = Some Dir"
      by (auto simp: mkdir_def split: if_splits)
    have "lookup fs1 q = Some Dir" if "prefix q p" for q
    proof (cases "q = p")
      case True
      with d show ?thesis by simp
    next
      case False
      with that have "strict_prefix q p" by (simp add: strict_prefix_def)
      from wf_fs_ancestors [OF w1 _ this] d show ?thesis by simp
    qed
    with eq w1 show ?thesis by simp
  next
    case None
    with m have hd: "lookup fs1 ?head = Some Dir" and eq: "fs' = put fs1 p Dir"
      by (auto simp: mkdir_def split: option.splits node.splits if_splits)
    from None have pne: "p \<noteq> []" by auto
    have w': "wf_fs fs'" unfolding eq by (rule wf_fs_put) (use w1 pne hd in simp_all)
    have "lookup fs' q = Some Dir" if "prefix q p" for q
    proof (cases "q = p")
      case True
      with pne show ?thesis by (simp add: eq lookup_put)
    next
      case False
      with that have "prefix q ?head" by (rule prefix_butlast)
      with anc hd have "lookup fs1 q = Some Dir" by simp
      with False pne show ?thesis by (simp add: eq lookup_put)
    qed
    moreover have "lookup fs' q = lookup fs1 q" if "\<not> prefix q p" for q
      using that pne by (auto simp: eq lookup_put)
    moreover have "lookup fs' q = lookup fs1 q" if "lookup fs1 q \<noteq> None" for q
      using that None pne by (auto simp: eq lookup_put)
    ultimately show ?thesis using w' by blast
  qed
  have anc0: "\<forall>q. prefix q ?head \<longrightarrow> lookup fs q = Some Dir" if "lookup fs ?head = Some Dir"
  proof (intro allI impI)
    fix q assume "prefix q ?head"
    show "lookup fs q = Some Dir"
    proof (cases "q = ?head")
      case True
      with that show ?thesis by simp
    next
      case False
      with \<open>prefix q ?head\<close> have "strict_prefix q ?head" by (simp add: strict_prefix_def)
      from wf_fs_ancestors [OF wf _ this] that show ?thesis by simp
    qed
  qed
  show ?case
  proof (cases ?cond)
    case False
    with res have "(case mkdir fs p of
             Inl e \<Rightarrow> if lookup fs p = Some Dir then Inr fs else Inl e
           | Inr fs2 \<Rightarrow> Inr fs2) = Inr fs'"
      by (subst (asm) makedirs.simps) simp
    from final [OF wf this] anc0 show ?thesis by blast
  next
    case True
    then have hn: "lookup fs ?head = None" by (simp add: path_exists_def)
    have pn: "lookup fs p = None"
    proof (rule ccontr)
      assume "lookup fs p \<noteq> None"
      moreover from True have "p = ?head @ [last p]" by simp
      ultimately have "lookup fs (?head @ [last p]) \<noteq> None" by simp
      with wf have "lookup fs ?head = Some Dir" by (rule wf_fs_parent)
      with hn show False by simp
    qed
    show ?thesis
    proof (cases "makedirs fs ?head")
      case (Inl e)
      with res True have "(case mkdir fs p of
             Inl e \<Rightarrow> if lookup fs p = Some Dir then Inr fs else Inl e
           | Inr fs2 \<Rightarrow> Inr fs2) = Inr fs'"
        by (subst (asm) makedirs.simps) (simp split: if_splits)
      with hn pn show ?thesis by (simp add: mkdir_def)
    next
      case (Inr fs1)
      with res True have m: "(case mkdir fs1 p of
             Inl e \<Rightarrow> if lookup fs1 p = Some Dir then Inr fs1 else Inl e
           | Inr fs2 \<Rightarrow> Inr fs2) = Inr fs'"
        by (subst (asm) makedirs.simps) simp
      from "1.IH" [OF True wf Inr]
      have ih: "wf_fs fs1" "\<forall>q. prefix q ?head \<longrightarrow> lookup fs1 q = Some Dir"
        "\<forall>q. \<not> prefix q ?head \<longrightarrow> lookup fs1 q = lookup fs q"
        "\<forall>q. lookup fs q \<noteq> None \<longrightarrow> lookup fs1 q = lookup fs q"
        by simp_all
      from final [OF ih(1) m] ih(2)
      have f: "wf_fs fs'" "\<forall>q. prefix q p \<longrightarrow> lookup fs' q = Some Dir"
        "\<forall>q. \<not> prefix q p \<longrightarrow> lookup fs' q = lookup fs1 q"
        "\<forall>q. lookup fs1 q \<noteq> None \<longrightarrow> lookup fs' q = lookup fs1 q"
        by simp_all
      have a: "lookup fs' q = lookup fs q" if "\<not> prefix q p" for q
      proof -
        from that have "\<not> prefix q ?head"
          by (metis True append_butlast_last_id prefix_order.trans prefixI)
        with ih(3) f(3) that show ?thesis by simp
      qed
      have b: "lookup fs' q = lookup fs q" if "lookup fs q \<noteq> None" for q
        using that ih(4) f(4) by simp
      from f(1,2) a b show ?thesis by blast
    qed
  qed
qed



lemma keeps_info: "keeps dest st st1 \<Longrightarrow> keeps dest st (info e st1)"
  by (simp add: keeps_def)






















lemma makedirs_appends:
  "makedirs fs p = Inr fs' \<Longrightarrow>
     \<exists>ps. fs' = fs @ map (\<lambda>q. (q, Dir)) ps \<and> (\<forall>q\<in>set ps. prefix q p)"
proof (induction fs p arbitrary: fs' rule: makedirs.induct)
  case (1 fs p)
  note res = "1.prems"
  let ?head = "butlast p"
  let ?cond = "p \<noteq> [] \<and> ?head \<noteq> [] \<and> \<not> path_exists fs ?head"
  have final: "\<exists>ps. fs' = fs1 @ map (\<lambda>q. (q, Dir)) ps \<and> (\<forall>q\<in>set ps. prefix q p)"
    if m: "(case mkdir fs1 p of
             Inl e \<Rightarrow> if lookup fs1 p = Some Dir then Inr fs1 else Inl e
           | Inr fs2 \<Rightarrow> Inr fs2) = Inr fs'"
    for fs1
  proof (cases "lookup fs1 p")
    case (Some a)
    with m have "fs' = fs1" by (auto simp: mkdir_def split: if_splits)
    then have "fs' = fs1 @ map (\<lambda>q. (q, Dir)) [] \<and> (\<forall>q\<in>set []. prefix q p)" by simp
    then show ?thesis by (rule exI)
  next
    case None
    with m have eq: "fs' = put fs1 p Dir"
      by (auto simp: mkdir_def split: option.splits node.splits if_splits)
    from None have "map_of fs1 p = None" by (auto simp: lookup_def split: if_splits)
    then have "p \<notin> fst ` set fs1" by (simp add: map_of_eq_None_iff)
    then have "\<forall>e\<in>set fs1. fst e \<noteq> p" by auto
    then have "unlink fs1 p = fs1" unfolding unlink_def by (simp add: filter_id_conv)
    with eq have "fs' = fs1 @ map (\<lambda>q. (q, Dir)) [p] \<and> (\<forall>q\<in>set [p]. prefix q p)"
      by (simp add: put_def)
    then show ?thesis by (rule exI)
  qed
  show ?case
  proof (cases ?cond)
    case False
    with res have "(case mkdir fs p of
             Inl e \<Rightarrow> if lookup fs p = Some Dir then Inr fs else Inl e
           | Inr fs2 \<Rightarrow> Inr fs2) = Inr fs'"
      by (subst (asm) makedirs.simps) simp
    then show ?thesis by (rule final)
  next
    case True
    show ?thesis
    proof (cases "makedirs fs ?head")
      case (Inl e)
      with res True have "(case mkdir fs p of
             Inl e \<Rightarrow> if lookup fs p = Some Dir then Inr fs else Inl e
           | Inr fs2 \<Rightarrow> Inr fs2) = Inr fs'"
        by (subst (asm) makedirs.simps) (simp split: if_splits)
      then show ?thesis by (rule final)
    next
      case (Inr fs1)
      with res True have m: "(case mkdir fs1 p of
             Inl e \<Rightarrow> if lookup fs1 p = Some Dir then Inr fs1 else Inl e
           | Inr fs2 \<Rightarrow> Inr fs2) = Inr fs'"
        by (subst (asm) makedirs.simps) simp
      from "1.IH" [OF True Inr]
      obtain ps1 where 1: "fs1 = fs @ map (\<lambda>q. (q, Dir)) ps1" "\<forall>q\<in>set ps1. prefix q ?head"
        by blast
      from final [OF m]
      obtain ps2 where 2: "fs' = fs1 @ map (\<lambda>q. (q, Dir)) ps2" "\<forall>q\<in>set ps2. prefix q p"
        by blast
      have "prefix q p" if "q \<in> set ps1" for q
      proof -
        from 1(2) that have "prefix q ?head" by simp
        moreover have "prefix ?head p" by (rule prefixeq_butlast)
        ultimately show ?thesis by (rule prefix_order.trans)
      qed
      with 2(2) have "\<forall>q\<in>set (ps1 @ ps2). prefix q p" by auto
      moreover from 1(1) 2(1) have "fs' = fs @ map (\<lambda>q. (q, Dir)) (ps1 @ ps2)" by simp
      ultimately have "fs' = fs @ map (\<lambda>q. (q, Dir)) (ps1 @ ps2) \<and> (\<forall>q\<in>set (ps1 @ ps2). prefix q p)"
        by simp
      then show ?thesis by (rule exI)
    qed
  qed
qed

lemma scandir_makedirs:
  assumes "wf_fs fs" "makedirs fs p = Inr fs'" "\<not> prefix t p" "\<And>x. \<not> prefix (t @ [x]) p"
  shows "scandir fs' t = scandir fs t"
proof -
  from makedirs_appends [OF assms(2)]
  obtain ps where ps: "fs' = fs @ map (\<lambda>q. (q, Dir)) ps" "\<forall>q\<in>set ps. prefix q p" by blast
  have "filter (\<lambda>e. fst e \<noteq> [] \<and> butlast (fst e) = t) (map (\<lambda>q. (q, Dir)) ps) = []"
  proof -
    have "\<not> (q \<noteq> [] \<and> butlast q = t)" if "q \<in> set ps" for q
    proof
      assume a: "q \<noteq> [] \<and> butlast q = t"
      then have "q = t @ [last q]" by auto
      with ps(2) that have "prefix (t @ [last q]) p" by auto
      with assms(4) show False by simp
    qed
    then show ?thesis by (auto simp: filter_empty_conv)
  qed
  then have n: "names fs' t = names fs t" by (simp add: names_def ps(1))
  from makedirs_result [OF assms(1,2)]
  have same: "\<forall>q. \<not> prefix q p \<longrightarrow> lookup fs' q = lookup fs q" by simp
  from same assms(3) have l0: "lookup fs' t = lookup fs t" by simp
  from same assms(4) have l1: "lookup fs' (t @ [x]) = lookup fs (t @ [x])" for x by simp
  show ?thesis by (simp add: scandir_def n l0 l1)
qed

section \<open>Claims\<close>

text \<open>
  C4. When the source root does not exist, \<^verbatim>\<open>sync\<close> raises no error and returns (for
  every depth allowance from some point on): the first walk yields nothing and the second
  walk removes every entry below the destination root, whatever the destination holds.
  Nothing outside the destination changes, the destination root itself is left as it
  was, and the log receives exactly one removal event for every entry directly in the
  destination root and none for any deeper path.
\<close>

theorem sync_source_missing:
  assumes "wf_fs (disk st)" "lookup (disk st) src = None"
  shows "\<exists>n. \<forall>m\<ge>n. \<exists>st'. sync m src dest st = Some (Inr st') \<and>
           (\<forall>q. q \<noteq> [] \<longrightarrow> lookup (disk st') (dest @ q) = None) \<and>
           (\<forall>p. \<not> strict_prefix dest p \<longrightarrow> lookup (disk st') p = lookup (disk st) p) \<and>
           (\<exists>evs. log st' = log st @ evs \<and> distinct evs \<and>
              set evs = {e. \<exists>x. removal [x] (lookup (disk st) (dest @ [x])) None = Some e})"
proof -
  have none: "lookup (disk st) (src @ a) = None" for a
    using assms by (rule wf_fs_missing)
  then have ind: "indep src dest (disk st)" by (simp add: indep_def)
  obtain k where k: "depth_le (disk st) (dest @ []) k" using depth_le_exists by blast
  have rm: "removals (disk st) src dest [] =
      {e. \<exists>x. removal [x] (lookup (disk st) (dest @ [x])) None = Some e}"
  proof -
    have "removals (disk st) src dest ([] @ [d]) = {}" if "lookup (disk st) (src @ [] @ [d]) \<noteq> None" for d
      using that none [of "[d]"] by simp
    then show ?thesis
      using none [of "[_]"] by (subst removals_Cons) auto
  qed
  have "\<exists>st'. sync m src dest st = Some (Inr st') \<and>
           (\<forall>q. q \<noteq> [] \<longrightarrow> lookup (disk st') (dest @ q) = None) \<and>
           (\<forall>p. \<not> strict_prefix dest p \<longrightarrow> lookup (disk st') p = lookup (disk st) p) \<and>
           (\<exists>evs. log st' = log st @ evs \<and> distinct evs \<and>
              set evs = {e. \<exists>x. removal [x] (lookup (disk st) (dest @ [x])) None = Some e})"
    if m: "Suc k \<le> m" for m
  proof -
    from m obtain m' where m': "m = Suc m'" by (cases m) auto
    from assms(2) have "scandir (disk st) src = None" by (simp add: scandir_None)
    then have a: "walk m (phase_a src dest) src st = Some (Inr st)" by (simp add: m')
    from m have "k < m" by simp
    from walk_phase_b [OF ind assms(1) k this]
    obtain st' where b: "walk m (phase_b src dest) dest st = Some (Inr st')"
      and g: "good_b st src dest [] st'"
      by auto
    from g have b2: "\<forall>p. lookup (disk st') p = (if pruned (disk st) src dest [] p then None else lookup (disk st) p)"
      and b3: "\<exists>evs. log st' = log st @ evs \<and> distinct evs \<and> set evs = removals (disk st) src dest []"
      by (simp_all add: good_b_def)
    from a b have "sync m src dest st = Some (Inr st')" by (simp add: sync_def)
    moreover have "lookup (disk st') (dest @ q) = None" if "q \<noteq> []" for q
    proof -
      from that none have "pruned (disk st) src dest [] (dest @ q)"
        unfolding pruned_def by (intro exI [of _ q]) simp
      with b2 show ?thesis by simp
    qed
    moreover have "lookup (disk st') p = lookup (disk st) p" if "\<not> strict_prefix dest p" for p
      using that b2 pruned_inside [of "disk st" src dest "[]" p] by auto
    ultimately show ?thesis using b3 rm by auto
  qed
  then show ?thesis by blast
qed

theorem sync_source_missing_witness:
  "wf_fs (disk st_c4) \<and> lookup (disk st_c4) [''s''] = None \<and>
   (\<exists>n. \<forall>m\<ge>n. \<exists>st'. sync m [''s''] [''d''] st_c4 = Some (Inr st') \<and>
           (\<forall>q. q \<noteq> [] \<longrightarrow> lookup (disk st') ([''d''] @ q) = None) \<and>
           (\<forall>p. \<not> strict_prefix [''d''] p \<longrightarrow> lookup (disk st') p = lookup (disk st_c4) p) \<and>
           (\<exists>evs. log st' = log st_c4 @ evs \<and> distinct evs \<and>
              set evs = {e. \<exists>x. removal [x] (lookup (disk st_c4) ([''d''] @ [x])) None = Some e}))"
proof -
  have w: "wf_fs (disk st_c4)" by code_simp
  have l: "lookup (disk st_c4) [''s''] = None" by code_simp
  show ?thesis by (rule conjI [OF w conjI [OF l sync_source_missing [OF w l]]])
qed

text \<open>
  C1. Mirror: with separate roots and a destination that is a directory with an empty
  listing, a pass
  returns without error (for every depth allowance from some point on) and leaves at
  every relative path below the destination root the entry that the source has at that
  path: the same kind, and for a file the same modification time and bytes; where the
  source has nothing the destination has nothing. The source is unchanged.
\<close>

theorem sync_mirror:
  assumes "wf_fs (disk st)" "separate src dest" "scandir (disk st) dest = Some ([], [])"
  shows "\<exists>n st'. (\<forall>m\<ge>n. sync m src dest st = Some (Inr st')) \<and>
           (\<forall>q. q \<noteq> [] \<longrightarrow> lookup (disk st') (dest @ q) = lookup (disk st) (src @ q)) \<and>
           (\<forall>a. lookup (disk st') (src @ a) = lookup (disk st) (src @ a))"
proof -
  from assms(3) have dd: "lookup (disk st) dest = Some Dir"
    by (simp add: scandir_def split: if_splits)
  then have ex: "lookup (disk st) dest \<noteq> None" by simp
  have top: "lookup (disk st) (dest @ [x]) = None" for x
  proof (cases "lookup (disk st) (dest @ [x])")
    case (Some a)
    with scandir_Some(4,5) [OF assms(3)] show ?thesis by (cases a) auto
  qed simp
  have empty: "lookup (disk st) (dest @ q) = None" if "q \<noteq> []" for q
  proof -
    from that obtain x z where "q = x # z" by (cases q) auto
    with wf_fs_missing [OF assms(1) top [of x], of z] show ?thesis by simp
  qed
  have nc: "\<not> clash (disk st) src dest []"
  proof
    assume "clash (disk st) src dest []"
    then obtain q x where c: "is_file (lookup (disk st) (dest @ q)) \<or> lookup (disk st) (dest @ q @ [x]) = Some Dir"
      unfolding clash_def by auto
    from dd empty have "\<not> is_file (lookup (disk st) (dest @ q))" by (cases "q = []") auto
    moreover from empty have "lookup (disk st) (dest @ q @ [x]) = None" by simp
    ultimately show False using c by simp
  qed
  from sync_no_clash [OF assms(2) assms(1) ex nc]
  obtain n st' where r: "\<forall>m\<ge>n. sync m src dest st = Some (Inr st')" by blast
  then have run: "sync n src dest st = Some (Inr st')" by simp
  note res = sync_result [OF assms(2) assms(1) ex run]
  have "lookup (disk st') (dest @ q) = lookup (disk st) (src @ q)" if "q \<noteq> []" for q
    using res(4) [OF that] empty that by simp
  with r res(3) show ?thesis by blast
qed

theorem sync_mirror_witness:
  "wf_fs (disk st_c1) \<and> separate [''s''] [''d''] \<and> scandir (disk st_c1) [''d''] = Some ([], []) \<and>
   (\<exists>n st'. (\<forall>m\<ge>n. sync m [''s''] [''d''] st_c1 = Some (Inr st')) \<and>
           (\<forall>q. q \<noteq> [] \<longrightarrow> lookup (disk st') ([''d''] @ q) = lookup (disk st_c1) ([''s''] @ q)) \<and>
           (\<forall>a. lookup (disk st') ([''s''] @ a) = lookup (disk st_c1) ([''s''] @ a)))"
proof -
  have w: "wf_fs (disk st_c1)" by code_simp
  have s: "separate [''s''] [''d'']" by (simp add: separate_def)
  have d: "scandir (disk st_c1) [''d''] = Some ([], [])" by code_simp
  show ?thesis
    by (rule conjI [OF w conjI [OF s conjI [OF d sync_mirror [OF w s d]]]])
qed















text \<open>
  C3, as stated, fails: no error stands for a source root that cannot be listed.
  \<^verbatim>\<open>os.walk\<close> swallows the error of \<^verbatim>\<open>scandir\<close>, so that with no source root the
  pass returns normally, and its second walk has removed the file of the destination.
\<close>

theorem sync_source_missing_counterexample:
  "lookup (disk st_c3) [''s''] = None \<and>
   sync 1 [''s''] [''d''] st_c3 =
     Some (Inr \<lparr>disk = [([''d''], Dir)], log = [RemovedFile [''g'']]\<rparr>)"
  by code_simp

text \<open>
  C3, amended. When the source root does not exist, the pass never ends in an error and
  is not aborted: it returns (for every depth allowance from some point on), its first
  walk returns at once with the state unchanged, so that nothing is created or updated,
  and what it returns is the state left by the second walk, which runs on the
  destination as in every pass.
\<close>

theorem sync_source_missing_no_error:
  assumes "wf_fs (disk st)" "lookup (disk st) src = None"
  shows "(\<exists>n st'. \<forall>m\<ge>n. sync m src dest st = Some (Inr st')) \<and>
         (\<forall>n r. sync n src dest st = Some r \<longrightarrow>
            walk n (phase_a src dest) src st = Some (Inr st) \<and>
            walk n (phase_b src dest) dest st = Some r \<and> (\<exists>st'. r = Inr st'))"
proof -
  have none: "lookup (disk st) (src @ a) = None" for a
    using assms by (rule wf_fs_missing)
  then have ind: "indep src dest (disk st)" by (simp add: indep_def)
  from assms(2) have sc: "scandir (disk st) src = None" by (simp add: scandir_None)
  have a: "walk (Suc n) (phase_a src dest) src st = Some (Inr st)" for n
    using sc by simp
  have one: "walk n (phase_a src dest) src st = Some (Inr st) \<and>
            walk n (phase_b src dest) dest st = Some r \<and> (\<exists>st'. r = Inr st')"
    if run: "sync n src dest st = Some r" for n r
  proof -
    from run obtain n' where n: "n = Suc n'" by (cases n) (auto simp: sync_def)
    with a [of n'] run have b: "walk n (phase_b src dest) (dest @ []) st = Some r"
      by (simp add: sync_def)
    from walk_phase_b_result [OF ind assms(1) b] a [of n'] n b show ?thesis by auto
  qed
  obtain k where k: "depth_le (disk st) (dest @ []) k" using depth_le_exists by blast
  from walk_phase_b [OF ind assms(1) k, of "Suc k"]
  obtain st' where "walk (Suc k) (phase_b src dest) dest st = Some (Inr st')" by auto
  with a [of k] have "sync (Suc k) src dest st = Some (Inr st')" by (simp add: sync_def)
  with sync_mono have "\<forall>m\<ge>Suc k. sync m src dest st = Some (Inr st')" by blast
  with one show ?thesis by blast
qed

theorem sync_source_missing_no_error_witness:
  "wf_fs (disk st_c3) \<and> lookup (disk st_c3) [''s''] = None \<and>
   (\<exists>n st'. \<forall>m\<ge>n. sync m [''s''] [''d''] st_c3 = Some (Inr st')) \<and>
   (\<exists>r. sync 1 [''s''] [''d''] st_c3 = Some r \<and>
        walk 1 (phase_a [''s''] [''d'']) [''s''] st_c3 = Some (Inr st_c3) \<and>
        walk 1 (phase_b [''s''] [''d'']) [''d''] st_c3 = Some r \<and> (\<exists>st'. r = Inr st'))"
proof -
  have w: "wf_fs (disk st_c3)" by code_simp
  have l: "lookup (disk st_c3) [''s''] = None" by code_simp
  have run: "sync 1 [''s''] [''d''] st_c3 =
     Some (Inr \<lparr>disk = [([''d''], Dir)], log = [RemovedFile [''g'']]\<rparr>)"
    by code_simp
  from sync_source_missing_no_error [OF w l, of "[''d'']"] w l run show ?thesis by blast
qed







end
